theory Spec2Isabelle
  imports Main "HOL-Library.Word"
begin


section \<open>Object representation\<close>

text \<open>
  The embedding follows \<^verbatim>\<open>GarbageCollector.c\<close>. A C pointer \<^verbatim>\<open>Object*\<close> is an optional
  address, \<open>None\<close> being \<^verbatim>\<open>NULL\<close>. The C heap is a list of cells indexed by address; a cell
  is \<open>None\<close> once \<^verbatim>\<open>free\<close> has released it. \<^verbatim>\<open>malloc\<close> extends the list, so an address is
  never handed out twice and a pointer to a released cell stays dangling. Reading or
  writing through \<^verbatim>\<open>NULL\<close>, a dangling pointer or an index outside an array is undefined
  behaviour in C; the model makes it the explicit result \<open>None\<close> (or \<open>Undefined\<close>).
  The C type \<^verbatim>\<open>int\<close> is a 32-bit word read in two's complement, \<^verbatim>\<open>unsigned char\<close> an
  8-bit word.
\<close>

datatype ObjectType = INT_TYPE | PAIR_TYPE

type_synonym addr = nat

type_synonym ptr = "addr option"

text \<open>
  \<^verbatim>\<open>struct sObject\<close>. The anonymous union overlays \<^verbatim>\<open>value\<close> with \<^verbatim>\<open>head\<close>/\<^verbatim>\<open>tail\<close>; the
  program reads \<^verbatim>\<open>head\<close>/\<^verbatim>\<open>tail\<close> only of objects tagged \<^verbatim>\<open>PAIR_TYPE\<close> and never reads
  \<^verbatim>\<open>value\<close>, so the record keeps the three as separate fields. The field \<^verbatim>\<open>value\<close> is
  called \<open>intValue\<close> and \<^verbatim>\<open>next\<close> is called \<open>nextObject\<close>, both names being reserved words
  of the theory language.
\<close>

record Object =
  objectType :: ObjectType
  marked :: "8 word"
  nextObject :: ptr
  intValue :: "32 word"
  head :: ptr
  tail :: ptr

type_synonym heap = "Object option list"

definition STACK_MAX_SIZE :: "32 word" where
  "STACK_MAX_SIZE = 256"

definition INITIAL_GC_THRESHOLD :: "32 word" where
  "INITIAL_GC_THRESHOLD = 16"

text \<open>\<^verbatim>\<open>struct VM\<close>: the array \<^verbatim>\<open>stack[STACK_MAX_SIZE]\<close> is a list of 256 pointers.\<close>

record VM =
  stack :: "ptr list"
  stackSize :: "32 word"
  numObjects :: "32 word"
  maxObjects :: "32 word"
  firstObject :: ptr

text \<open>
  The two \<^verbatim>\<open>exit(EXIT_FAILURE)\<close> paths of the program. An operation either returns a
  value with the state it leaves, or terminates the process with an error (the state is
  the one at the call of \<^verbatim>\<open>exit\<close>), or runs into undefined behaviour.
\<close>

datatype error = StackOverflow | StackUnderflow

datatype 'a outcome = Return 'a VM heap | Exit error VM heap | Undefined

subsection \<open>Memory access\<close>

definition deref :: "heap \<Rightarrow> ptr \<Rightarrow> Object option" where
  "deref h p = (case p of None \<Rightarrow> None
                | Some a \<Rightarrow> if a < length h then h ! a else None)"

text \<open>A write \<^verbatim>\<open>p->field = v\<close>: defined only when \<open>p\<close> points to an allocated object.\<close>

definition store :: "heap \<Rightarrow> ptr \<Rightarrow> (Object \<Rightarrow> Object) \<Rightarrow> heap option" where
  "store h p f = (case p of None \<Rightarrow> None
                  | Some a \<Rightarrow> (case deref h p of None \<Rightarrow> None
                              | Some obj \<Rightarrow> Some (h[a := Some (f obj)])))"

definition free :: "heap \<Rightarrow> addr \<Rightarrow> heap" where
  "free h a = h[a := None]"

text \<open>An index into \<^verbatim>\<open>vm->stack\<close> is valid inside \<open>[0, STACK_MAX_SIZE)\<close>.\<close>

definition in_bounds :: "VM \<Rightarrow> 32 word \<Rightarrow> bool" where
  "in_bounds vm i \<longleftrightarrow>
     0 \<le> sint i \<and> sint i < sint STACK_MAX_SIZE \<and> nat (sint i) < length (stack vm)"

section \<open>The virtual machine\<close>

text \<open>
  \<^verbatim>\<open>newVM\<close>: \<^verbatim>\<open>malloc\<close> leaves the stack array indeterminate; the model fills it with
  \<^verbatim>\<open>NULL\<close>. No slot at or above \<open>stackSize\<close> is read before it is written.
\<close>

definition newVM :: VM where
  "newVM = \<lparr> stack = replicate 256 None, stackSize = 0, numObjects = 0,
             maxObjects = INITIAL_GC_THRESHOLD, firstObject = None \<rparr>"

text \<open>
  \<^verbatim>\<open>push\<close>: the guard is \<^verbatim>\<open>stackSize > STACK_MAX_SIZE\<close>, a signed comparison. Past it,
  \<^verbatim>\<open>vm->stack[vm->stackSize++] = value\<close> writes the slot \<open>stackSize\<close>, which lies in the array
  only below 256, and then increments the size.
\<close>

definition push :: "ptr \<Rightarrow> VM \<Rightarrow> heap \<Rightarrow> unit outcome" where
  "push v vm h =
     (if STACK_MAX_SIZE <s stackSize vm then Exit StackOverflow vm h
      else if in_bounds vm (stackSize vm)
        then Return () (vm\<lparr> stack := (stack vm)[nat (sint (stackSize vm)) := v],
                            stackSize := stackSize vm + 1 \<rparr>) h
        else Undefined)"

text \<open>
  \<^verbatim>\<open>pop\<close>: the guard is \<^verbatim>\<open>!(stackSize > 0)\<close>. Past it, \<^verbatim>\<open>vm->stack[--(vm->stackSize)]\<close>
  decrements the size and reads the slot at the new size; the slot keeps its content.
\<close>

definition pop :: "VM \<Rightarrow> heap \<Rightarrow> ptr outcome" where
  "pop vm h =
     (if \<not> (0 <s stackSize vm) then Exit StackUnderflow vm h
      else let vm1 = vm\<lparr> stackSize := stackSize vm - 1 \<rparr>
           in if in_bounds vm1 (stackSize vm1)
              then Return (stack vm1 ! nat (sint (stackSize vm1))) vm1 h
              else Undefined)"

section \<open>Marking\<close>

text \<open>
  The number of allocated objects whose mark bit is clear: the measure of the recursion
  of \<^verbatim>\<open>mark\<close>.
\<close>

definition unmarked_count :: "heap \<Rightarrow> nat" where
  "unmarked_count h =
     length (filter (\<lambda>c. case c of None \<Rightarrow> False | Some obj \<Rightarrow> marked obj = 0) h)"

text \<open>
  \<^verbatim>\<open>mark\<close>. The recursive calls read \<^verbatim>\<open>object->head\<close> and \<^verbatim>\<open>object->tail\<close> after the mark
  bit of \<open>object\<close> is set; \<^verbatim>\<open>mark\<close> writes no field but \<^verbatim>\<open>marked\<close>, so both are the values
  read at entry.
\<close>

function mark :: "heap \<Rightarrow> ptr \<Rightarrow> heap option" where
  "mark h object =
     (case deref h object of
        None \<Rightarrow> None
      | Some obj \<Rightarrow>
          if marked obj \<noteq> 0 then Some h
          else (case store h object (\<lambda>ob. ob\<lparr> marked := 1 \<rparr>) of
                  None \<Rightarrow> None
                | Some h1 \<Rightarrow>
                    if objectType obj = PAIR_TYPE
                    then (case mark h1 (head obj) of
                            None \<Rightarrow> None
                          | Some h2 \<Rightarrow> mark h2 (tail obj))
                    else Some h1))"
  by pat_completeness auto

lemma length_filter_update:
  "i < length xs \<Longrightarrow>
   length (filter P (xs[i := y])) + (if P (xs ! i) then 1 else 0)
     = length (filter P xs) + (if P y then 1 else 0)"
proof (induction xs arbitrary: i)
  case Nil
  then show ?case by simp
next
  case (Cons x xs)
  then show ?case by (cases i) auto
qed

lemma store_SomeD:
  "store h p f = Some h1 \<Longrightarrow>
   \<exists>a obj. p = Some a \<and> a < length h \<and> h ! a = Some obj \<and> h1 = h[a := Some (f obj)]"
  by (auto simp: store_def deref_def split: option.splits if_splits)

lemma deref_SomeD:
  "deref h p = Some obj \<Longrightarrow> \<exists>a. p = Some a \<and> a < length h \<and> h ! a = Some obj"
  by (auto simp: deref_def split: option.splits if_splits)

lemma unmarked_count_mark_step:
  assumes "a < length h" "h ! a = Some obj" "marked obj = 0"
  shows "unmarked_count (h[a := Some (obj\<lparr> marked := 1 \<rparr>)]) < unmarked_count h"
  using length_filter_update [OF assms(1), of "\<lambda>c. case c of None \<Rightarrow> False | Some ob \<Rightarrow> marked ob = 0" "Some (obj\<lparr> marked := 1 \<rparr>)"] assms
  by (simp add: unmarked_count_def)

lemma mark_dom_unmarked_le:
  "mark_dom (h, p) \<Longrightarrow> mark h p = Some h' \<Longrightarrow> unmarked_count h' \<le> unmarked_count h"
proof (induction h p arbitrary: h' rule: mark.pinduct)
  case (1 h object)
  from "1.prems" "1.hyps" obtain obj where d: "deref h object = Some obj"
    by (auto simp: mark.psimps split: option.splits)
  show ?case
  proof (cases "marked obj \<noteq> 0")
    case True
    with "1.prems" "1.hyps" d show ?thesis by (simp add: mark.psimps)
  next
    case False
    from "1.prems" "1.hyps" d False obtain h1 where s: "store h object (\<lambda>ob. ob\<lparr> marked := 1 \<rparr>) = Some h1"
      by (auto simp: mark.psimps split: option.splits)
    from store_SomeD [OF s] d False have lt: "unmarked_count h1 < unmarked_count h"
      by (auto simp: deref_def unmarked_count_mark_step)
    show ?thesis
    proof (cases "objectType obj = PAIR_TYPE")
      case True
      from "1.prems" "1.hyps" d False s True obtain h2 where
        m1: "mark h1 (head obj) = Some h2" and m2: "mark h2 (tail obj) = Some h'"
        by (auto simp: mark.psimps split: option.splits)
      have "unmarked_count h2 \<le> unmarked_count h1"
        using "1.IH"(1) [OF d _ s True m1] False by simp
      moreover have "unmarked_count h' \<le> unmarked_count h2"
        using "1.IH"(2) [OF d _ s True m1 m2] False by simp
      ultimately show ?thesis using lt by simp
    next
      case F2: False
      with "1.prems" "1.hyps" d False s have "h' = h1" by (simp add: mark.psimps)
      with lt show ?thesis by simp
    qed
  qed
qed

termination mark
proof (relation "measure (\<lambda>(h, p). unmarked_count h)")
  show "wf (measure (\<lambda>(h, p). unmarked_count h))" by simp
next
  fix h object obj h1
  assume d: "deref h object = Some obj" and m: "\<not> marked obj \<noteq> 0"
    and s: "store h object (\<lambda>ob. ob\<lparr> marked := 1 \<rparr>) = Some h1"
  from store_SomeD [OF s] d m have lt: "unmarked_count h1 < unmarked_count h"
    by (auto simp: deref_def unmarked_count_mark_step)
  then show "((h1, head obj), (h, object)) \<in> measure (\<lambda>(h, p). unmarked_count h)" by simp
  fix h2
  assume "mark h1 (head obj) = Some h2" "mark_dom (h1, head obj)"
  then have "unmarked_count h2 \<le> unmarked_count h1" by (rule mark_dom_unmarked_le [rotated])
  with lt show "((h2, tail obj), (h, object)) \<in> measure (\<lambda>(h, p). unmarked_count h)" by simp
qed

declare mark.simps [simp del]

lemma sint_succ_32:
  fixes i n :: "32 word"
  assumes "i <s n"
  shows "sint (i + 1) = sint i + 1"
proof -
  have "sint i < sint n" using assms by (simp add: word_sless_alt)
  moreover have "sint n < 2 ^ 31" using sint_lt [of n] by simp
  moreover have "- (2 ^ 31) \<le> sint i" using sint_ge [of i] by simp
  ultimately have "signed_take_bit 31 (sint i + 1) = sint i + 1"
    by (intro signed_take_bit_int_eq_self) auto
  then show ?thesis by (simp add: sint_word_add)
qed

section \<open>markAll\<close>

text \<open>
  \<^verbatim>\<open>markAll\<close>: the loop \<^verbatim>\<open>for (int i = 0; i < vm->stackSize; i++) mark(vm->stack[i])\<close>, with
  the loop variable \<open>i\<close> as an argument.
\<close>

function markAll_loop :: "VM \<Rightarrow> 32 word \<Rightarrow> heap \<Rightarrow> heap option" where
  "markAll_loop vm i h =
     (if i <s stackSize vm
      then if in_bounds vm i
           then (case mark h (stack vm ! nat (sint i)) of
                   None \<Rightarrow> None
                 | Some h1 \<Rightarrow> markAll_loop vm (i + 1) h1)
           else None
      else Some h)"
  by pat_completeness auto

termination
proof (relation "measure (\<lambda>(vm, i, h). nat (sint (stackSize vm) - sint i))")
  show "wf (measure (\<lambda>(vm, i, h). nat (sint (stackSize vm) - sint i)))" by simp
next
  fix vm :: VM and i :: "32 word" and h h1 :: heap
  assume lt: "i <s stackSize vm"
  then have "sint i < sint (stackSize vm)" by (simp add: word_sless_alt)
  with sint_succ_32 [OF lt]
  show "((vm, i + 1, h1), (vm, i, h)) \<in> measure (\<lambda>(vm, i, h). nat (sint (stackSize vm) - sint i))"
    by simp
qed

definition markAll :: "VM \<Rightarrow> heap \<Rightarrow> heap option" where
  "markAll vm h = markAll_loop vm 0 h"

section \<open>Sweeping\<close>

text \<open>
  \<^verbatim>\<open>sweep\<close> walks the chain with a cursor \<^verbatim>\<open>Object** object\<close>, which points either to
  \<^verbatim>\<open>vm->firstObject\<close> or to the field \<^verbatim>\<open>next\<close> of an object. \<open>read_slot\<close> is \<^verbatim>\<open>*object\<close> and
  \<open>write_slot\<close> is \<^verbatim>\<open>*object = p\<close>.
\<close>

datatype slot = FirstObject_slot | NextObject_slot addr

definition read_slot :: "VM \<Rightarrow> heap \<Rightarrow> slot \<Rightarrow> ptr option" where
  "read_slot vm h s =
     (case s of
        FirstObject_slot \<Rightarrow> Some (firstObject vm)
      | NextObject_slot b \<Rightarrow> map_option nextObject (deref h (Some b)))"

definition write_slot :: "VM \<Rightarrow> heap \<Rightarrow> slot \<Rightarrow> ptr \<Rightarrow> (VM \<times> heap) option" where
  "write_slot vm h s p =
     (case s of
        FirstObject_slot \<Rightarrow> Some (vm\<lparr> firstObject := p \<rparr>, h)
      | NextObject_slot b \<Rightarrow>
          map_option (Pair vm) (store h (Some b) (\<lambda>ob. ob\<lparr> nextObject := p \<rparr>)))"

text \<open>
  The measure of the sweep loop: an iteration either releases an allocated object or
  clears the mark bit of one, and a released object cannot be read again without a fault.
\<close>

definition allocated_count :: "heap \<Rightarrow> nat" where
  "allocated_count h = length (filter (\<lambda>c. c \<noteq> None) h)"

definition marked_count :: "heap \<Rightarrow> nat" where
  "marked_count h =
     length (filter (\<lambda>c. case c of None \<Rightarrow> False | Some obj \<Rightarrow> marked obj \<noteq> 0) h)"

text \<open>
  The body of \<^verbatim>\<open>while (*object)\<close>. An unmarked object is unlinked (\<^verbatim>\<open>*object = unreached->next\<close>)
  and released, and the cursor stays; a marked object has its bit cleared and the cursor
  moves to its field \<^verbatim>\<open>next\<close>. No branch writes \<open>numObjects\<close>.
\<close>

function sweep_loop :: "VM \<Rightarrow> heap \<Rightarrow> slot \<Rightarrow> (VM \<times> heap) option" where
  "sweep_loop vm h object =
     (case read_slot vm h object of
        None \<Rightarrow> None
      | Some None \<Rightarrow> Some (vm, h)
      | Some (Some a) \<Rightarrow>
          (case deref h (Some a) of
             None \<Rightarrow> None
           | Some obj \<Rightarrow>
               if marked obj = 0
               then (case write_slot vm h object (nextObject obj) of
                       None \<Rightarrow> None
                     | Some (vm1, h1) \<Rightarrow> sweep_loop vm1 (free h1 a) object)
               else (case store h (Some a) (\<lambda>ob. ob\<lparr> marked := 0 \<rparr>) of
                       None \<Rightarrow> None
                     | Some h1 \<Rightarrow> sweep_loop vm h1 (NextObject_slot a))))"
  by pat_completeness auto

lemma write_slot_SomeD:
  "write_slot vm h s p = Some (vm1, h1) \<Longrightarrow>
     (s = FirstObject_slot \<and> vm1 = vm\<lparr> firstObject := p \<rparr> \<and> h1 = h) \<or>
     (\<exists>b ob. s = NextObject_slot b \<and> vm1 = vm \<and> b < length h \<and> h ! b = Some ob
          \<and> h1 = h[b := Some (ob\<lparr> nextObject := p \<rparr>)])"
  by (cases s) (auto simp: write_slot_def dest: store_SomeD)

lemma write_slot_counts:
  assumes "write_slot vm h s p = Some (vm1, h1)"
  shows "allocated_count h1 = allocated_count h" and "marked_count h1 = marked_count h"
    and "length h1 = length h"
proof -
  from write_slot_SomeD [OF assms] show "allocated_count h1 = allocated_count h"
  proof (elim disjE exE conjE)
    fix b ob assume b: "b < length h" "h ! b = Some ob" "h1 = h[b := Some (ob\<lparr> nextObject := p \<rparr>)]"
    from length_filter_update [OF b(1), of "\<lambda>c. c \<noteq> None" "Some (ob\<lparr> nextObject := p \<rparr>)"] b
    show ?thesis by (simp add: allocated_count_def)
  qed simp
  from write_slot_SomeD [OF assms] show "marked_count h1 = marked_count h"
  proof (elim disjE exE conjE)
    fix b ob assume b: "b < length h" "h ! b = Some ob" "h1 = h[b := Some (ob\<lparr> nextObject := p \<rparr>)]"
    from length_filter_update [OF b(1), of "\<lambda>c. case c of None \<Rightarrow> False | Some obj \<Rightarrow> marked obj \<noteq> 0" "Some (ob\<lparr> nextObject := p \<rparr>)"] b
    show ?thesis by (simp add: marked_count_def)
  qed simp
  from write_slot_SomeD [OF assms] show "length h1 = length h" by auto
qed

lemma free_counts:
  assumes "a < length h" "h ! a = Some obj" "marked obj = 0"
  shows "allocated_count (free h a) < allocated_count h"
    and "marked_count (free h a) = marked_count h"
proof -
  from length_filter_update [OF assms(1), of "\<lambda>c. c \<noteq> None" None] assms
  show "allocated_count (free h a) < allocated_count h"
    by (simp add: allocated_count_def free_def)
  from length_filter_update [OF assms(1), of "\<lambda>c. case c of None \<Rightarrow> False | Some obj \<Rightarrow> marked obj \<noteq> 0" None] assms
  show "marked_count (free h a) = marked_count h"
    by (simp add: marked_count_def free_def)
qed

lemma unmark_counts:
  assumes "a < length h" "h ! a = Some obj" "marked obj \<noteq> 0"
  shows "allocated_count (h[a := Some (obj\<lparr> marked := 0 \<rparr>)]) = allocated_count h"
    and "marked_count (h[a := Some (obj\<lparr> marked := 0 \<rparr>)]) < marked_count h"
proof -
  from length_filter_update [OF assms(1), of "\<lambda>c. c \<noteq> None" "Some (obj\<lparr> marked := 0 \<rparr>)"] assms
  show "allocated_count (h[a := Some (obj\<lparr> marked := 0 \<rparr>)]) = allocated_count h"
    by (simp add: allocated_count_def)
  from length_filter_update [OF assms(1), of "\<lambda>c. case c of None \<Rightarrow> False | Some obj \<Rightarrow> marked obj \<noteq> 0" "Some (obj\<lparr> marked := 0 \<rparr>)"] assms
  show "marked_count (h[a := Some (obj\<lparr> marked := 0 \<rparr>)]) < marked_count h"
    by (simp add: marked_count_def)
qed

termination sweep_loop
proof (relation "measure (\<lambda>(vm, h, s). allocated_count h + marked_count h)")
  show "wf (measure (\<lambda>(vm, h, s). allocated_count h + marked_count h))" by simp
next
  fix vm :: VM and h :: heap and object :: slot and a obj x vm1 h1
  assume d: "deref h (Some a) = Some obj" and m: "marked obj = 0"
    and w: "write_slot vm h object (nextObject obj) = Some x" and x: "(vm1, h1) = x"
  from w x have w': "write_slot vm h object (nextObject obj) = Some (vm1, h1)" by simp
  from deref_SomeD [OF d] have a: "a < length h" "h ! a = Some obj" by auto
  from write_slot_SomeD [OF w'] a m
  have "\<exists>obj1. a < length h1 \<and> h1 ! a = Some obj1 \<and> marked obj1 = 0"
    by (elim disjE exE conjE) (auto simp: nth_list_update)
  then obtain obj1 where a1: "a < length h1" "h1 ! a = Some obj1" "marked obj1 = 0"
    by blast
  from free_counts [OF a1] write_slot_counts [OF w']
  show "((vm1, free h1 a, object), (vm, h, object)) \<in> measure (\<lambda>(vm, h, s). allocated_count h + marked_count h)"
    by simp
next
  fix vm :: VM and h :: heap and object :: slot and a obj h1
  assume d: "deref h (Some a) = Some obj" and m: "marked obj \<noteq> 0"
    and s: "store h (Some a) (\<lambda>ob. ob\<lparr> marked := 0 \<rparr>) = Some h1"
  from deref_SomeD [OF d] have a: "a < length h" "h ! a = Some obj" by auto
  from store_SomeD [OF s] a have "h1 = h[a := Some (obj\<lparr> marked := 0 \<rparr>)]" by auto
  with unmark_counts [OF a m]
  show "((vm, h1, NextObject_slot a), (vm, h, object)) \<in> measure (\<lambda>(vm, h, s). allocated_count h + marked_count h)"
    by simp
qed

declare sweep_loop.simps [simp del]

declare markAll_loop.simps [simp del]

definition sweep :: "VM \<Rightarrow> heap \<Rightarrow> (VM \<times> heap) option" where
  "sweep vm h = sweep_loop vm h FirstObject_slot"

section \<open>The collector\<close>

text \<open>
  \<^verbatim>\<open>gc\<close>: mark, sweep, then \<^verbatim>\<open>vm->maxObjects = vm->numObjects * 2\<close> (the multiplication wraps
  at 32 bits). The local \<^verbatim>\<open>int numObjects = vm->numObjects\<close> of the source is never read.
\<close>

definition gc :: "VM \<Rightarrow> heap \<Rightarrow> (VM \<times> heap) option" where
  "gc vm h =
     (case markAll vm h of
        None \<Rightarrow> None
      | Some h1 \<Rightarrow>
          (case sweep vm h1 of
             None \<Rightarrow> None
           | Some (vm2, h2) \<Rightarrow> Some (vm2\<lparr> maxObjects := numObjects vm2 * 2 \<rparr>, h2)))"

section \<open>Allocation\<close>

text \<open>
  \<^verbatim>\<open>newObject\<close>: a collection first if \<^verbatim>\<open>numObjects == maxObjects\<close>; then \<^verbatim>\<open>malloc\<close> (the new
  cell is appended to the heap; allocation is assumed not to fail), the type tag,
  \<^verbatim>\<open>marked = 0\<close>, the link to the old head of the chain, the new head and the incremented
  count. C leaves the payload of the new cell indeterminate; the model sets it to 0 and
  \<^verbatim>\<open>NULL\<close>.
\<close>

definition newObject :: "ObjectType \<Rightarrow> VM \<Rightarrow> heap \<Rightarrow> (ptr \<times> VM \<times> heap) option" where
  "newObject t vm h =
     (case (if numObjects vm = maxObjects vm then gc vm h else Some (vm, h)) of
        None \<Rightarrow> None
      | Some (vm1, h1) \<Rightarrow>
          let object = length h1;
              h2 = h1 @ [Some \<lparr> objectType = t, marked = 0, nextObject = firstObject vm1,
                                intValue = 0, head = None, tail = None \<rparr>];
              vm2 = vm1\<lparr> firstObject := Some object, numObjects := numObjects vm1 + 1 \<rparr>
          in Some (Some object, vm2, h2))"

text \<open>\<^verbatim>\<open>pushInt\<close>: allocate, store the value, push.\<close>

definition pushInt :: "32 word \<Rightarrow> VM \<Rightarrow> heap \<Rightarrow> unit outcome" where
  "pushInt v vm h =
     (case newObject INT_TYPE vm h of
        None \<Rightarrow> Undefined
      | Some (object, vm1, h1) \<Rightarrow>
          (case store h1 object (\<lambda>ob. ob\<lparr> intValue := v \<rparr>) of
             None \<Rightarrow> Undefined
           | Some h2 \<Rightarrow> push object vm1 h2))"

text \<open>
  \<^verbatim>\<open>pushPair\<close>: allocate first, then \<^verbatim>\<open>object->tail = pop(vm)\<close> and \<^verbatim>\<open>object->head = pop(vm)\<close>,
  then push the pair and return it.
\<close>

definition pushPair :: "VM \<Rightarrow> heap \<Rightarrow> ptr outcome" where
  "pushPair vm h =
     (case newObject PAIR_TYPE vm h of
        None \<Rightarrow> Undefined
      | Some (object, vm1, h1) \<Rightarrow>
          (case pop vm1 h1 of
             Undefined \<Rightarrow> Undefined
           | Exit e vm' h' \<Rightarrow> Exit e vm' h'
           | Return tl_p vm2 h2 \<Rightarrow>
               (case store h2 object (\<lambda>ob. ob\<lparr> tail := tl_p \<rparr>) of
                  None \<Rightarrow> Undefined
                | Some h3 \<Rightarrow>
                    (case pop vm2 h3 of
                       Undefined \<Rightarrow> Undefined
                     | Exit e vm' h' \<Rightarrow> Exit e vm' h'
                     | Return hd_p vm3 h4 \<Rightarrow>
                         (case store h4 object (\<lambda>ob. ob\<lparr> head := hd_p \<rparr>) of
                            None \<Rightarrow> Undefined
                          | Some h5 \<Rightarrow>
                              (case push object vm3 h5 of
                                 Undefined \<Rightarrow> Undefined
                               | Exit e vm' h' \<Rightarrow> Exit e vm' h'
                               | Return u vm4 h6 \<Rightarrow> Return object vm4 h6))))))"

section \<open>Reachability, the registry and well-formed states\<close>

text \<open>
  \<open>reach h R\<close>: the addresses reachable in the heap \<open>h\<close> from the roots \<open>R\<close> by zero or more
  steps from an allocated pair to its head or to its tail.
\<close>

inductive_set reach :: "heap \<Rightarrow> addr set \<Rightarrow> addr set" for h :: heap and R :: "addr set" where
  root: "a \<in> R \<Longrightarrow> a \<in> reach h R"
| via_head: "a \<in> reach h R \<Longrightarrow> deref h (Some a) = Some obj \<Longrightarrow> objectType obj = PAIR_TYPE
     \<Longrightarrow> head obj = Some b \<Longrightarrow> b \<in> reach h R"
| via_tail: "a \<in> reach h R \<Longrightarrow> deref h (Some a) = Some obj \<Longrightarrow> objectType obj = PAIR_TYPE
     \<Longrightarrow> tail obj = Some b \<Longrightarrow> b \<in> reach h R"

text \<open>The pointer leads to an allocated object whose mark bit is set.\<close>

definition is_marked :: "heap \<Rightarrow> ptr \<Rightarrow> bool" where
  "is_marked h p = (case deref h p of None \<Rightarrow> False | Some obj \<Rightarrow> marked obj \<noteq> 0)"

text \<open>
  \<open>marks_only h h'\<close>: the heap \<open>h'\<close> is \<open>h\<close>, except that some objects unmarked in \<open>h\<close> have the
  mark 1.
\<close>

definition marks_only :: "heap \<Rightarrow> heap \<Rightarrow> bool" where
  "marks_only h h' \<longleftrightarrow>
     length h' = length h \<and>
     (\<forall>a<length h. h' ! a = h ! a \<or>
        (\<exists>obj. h ! a = Some obj \<and> marked obj = 0 \<and> h' ! a = Some (obj\<lparr> marked := 1 \<rparr>)))"

text \<open>
  The object at \<open>a\<close> is allocated and, if it is a pair, both its fields lead to marked
  objects.
\<close>

definition closed_at :: "heap \<Rightarrow> addr \<Rightarrow> bool" where
  "closed_at h a \<longleftrightarrow>
     (case deref h (Some a) of
        None \<Rightarrow> False
      | Some obj \<Rightarrow> objectType obj = PAIR_TYPE \<longrightarrow> is_marked h (head obj) \<and> is_marked h (tail obj))"

text \<open>
  A set of addresses is closed when each of its members is allocated and the two fields
  of each pair among them point into the set again.
\<close>

definition closed_set :: "heap \<Rightarrow> addr set \<Rightarrow> bool" where
  "closed_set h S \<longleftrightarrow>
     (\<forall>a\<in>S. case deref h (Some a) of
               None \<Rightarrow> False
             | Some obj \<Rightarrow> objectType obj = PAIR_TYPE \<longrightarrow>
                 head obj \<in> Some ` S \<and> tail obj \<in> Some ` S)"

text \<open>
  The loop of \<^verbatim>\<open>markAll\<close> visits the stack slots \<open>0 .. stackSize - 1\<close> in order; on a stack
  whose size is within the array it is the iteration of \<open>mark\<close> over that prefix.
\<close>

fun mark_list :: "heap \<Rightarrow> ptr list \<Rightarrow> heap option" where
  "mark_list h [] = Some h"
| "mark_list h (p # ps) = (case mark h p of None \<Rightarrow> None | Some h1 \<Rightarrow> mark_list h1 ps)"

text \<open>The stack entries in use, bottom first.\<close>

definition live_stack :: "VM \<Rightarrow> ptr list" where
  "live_stack vm = take (nat (sint (stackSize vm))) (stack vm)"

text \<open>The array has its 256 slots and the size is between 0 and 256.\<close>

definition stack_ok :: "VM \<Rightarrow> bool" where
  "stack_ok vm \<longleftrightarrow> length (stack vm) = 256 \<and> 0 \<le> sint (stackSize vm) \<and> sint (stackSize vm) \<le> 256"

text \<open>
  The addresses among a list of pointers. The roots are those on the stack; an object is
  reachable when the roots reach it.
\<close>

definition addrs_of :: "ptr list \<Rightarrow> addr set" where
  "addrs_of ps = {a. Some a \<in> set ps}"

definition roots :: "VM \<Rightarrow> addr set" where
  "roots vm = addrs_of (live_stack vm)"

definition reachable :: "VM \<Rightarrow> heap \<Rightarrow> addr set" where
  "reachable vm h = reach h (roots vm)"

text \<open>The registry: the chain of \<open>nextObject\<close> links from a pointer to \<^verbatim>\<open>NULL\<close>.\<close>

fun chain :: "heap \<Rightarrow> ptr \<Rightarrow> addr list \<Rightarrow> bool" where
  "chain h p [] \<longleftrightarrow> p = None"
| "chain h p (a # as) \<longleftrightarrow>
     p = Some a \<and> (case deref h p of None \<Rightarrow> False | Some obj \<Rightarrow> chain h (nextObject obj) as)"

text \<open>The part of a chain that a sweep retains: its marked objects, in order.\<close>

definition kept :: "heap \<Rightarrow> addr list \<Rightarrow> addr list" where
  "kept h as = filter (\<lambda>a. is_marked h (Some a)) as"

text \<open>
  \<open>swept h as s h'\<close>: what a sweep of the chain \<open>as\<close>, entered through the link \<open>s\<close>, makes
  of the heap. A marked object of the chain is kept, its mark cleared and its link
  possibly redirected; an unmarked object of the chain is released; the object holding
  the link \<open>s\<close> changes in that link at most; every other cell is untouched.
\<close>

definition swept :: "heap \<Rightarrow> addr list \<Rightarrow> slot \<Rightarrow> heap \<Rightarrow> bool" where
  "swept h as s h' \<longleftrightarrow>
     length h' = length h \<and>
     (\<forall>c<length h.
        if c \<in> set as
        then (if is_marked h (Some c)
              then (\<exists>obj n. h ! c = Some obj \<and> h' ! c = Some (obj\<lparr> marked := 0, nextObject := n \<rparr>))
              else h' ! c = None)
        else if s = NextObject_slot c
        then (\<exists>ob n. h ! c = Some ob \<and> h' ! c = Some (ob\<lparr> nextObject := n \<rparr>))
        else h' ! c = h ! c)"

text \<open>
  The VM after a sweep entered through the link \<open>s\<close>, where \<open>p\<close> is the final content of that
  link.
\<close>

definition slot_vm :: "VM \<Rightarrow> slot \<Rightarrow> ptr \<Rightarrow> VM" where
  "slot_vm vm s p = (case s of FirstObject_slot \<Rightarrow> vm\<lparr> firstObject := p \<rparr> | NextObject_slot b \<Rightarrow> vm)"

text \<open>
  \<open>vm_ok vm h as\<close>: the stack size is within the array; the registry chain from
  \<open>firstObject\<close> runs through the objects \<open>as\<close> to \<^verbatim>\<open>NULL\<close>; the fields of every registered
  pair point to registered objects; every stack entry points to a registered object; no
  registered object is marked.
\<close>

definition vm_ok :: "VM \<Rightarrow> heap \<Rightarrow> addr list \<Rightarrow> bool" where
  "vm_ok vm h as \<longleftrightarrow>
     stack_ok vm \<and> chain h (firstObject vm) as \<and> closed_set h (set as) \<and>
     set (live_stack vm) \<subseteq> Some ` set as \<and> (\<forall>a\<in>set as. \<not> is_marked h (Some a))"

text \<open>Every object of the registry chain has its mark bit clear.\<close>

definition registry_unmarked :: "VM \<Rightarrow> heap \<Rightarrow> bool" where
  "registry_unmarked vm h \<longleftrightarrow>
     (\<exists>as. chain h (firstObject vm) as \<and> (\<forall>a\<in>set as. \<not> is_marked h (Some a)))"

section \<open>Example states\<close>

text \<open>
  Five registered objects: the integer \<open>0\<close>; the pair \<open>1\<close>, whose tail is the pair itself;
  the pair \<open>2\<close>, which shares \<open>1\<close> and \<open>0\<close>; the integer \<open>3\<close>; the pair \<open>4\<close>, whose head
  is the pair itself and whose tail is \<open>3\<close>. The stack holds the pairs \<open>2\<close> and \<open>1\<close>, so \<open>3\<close>
  and the cyclic pair \<open>4\<close> are garbage.
\<close>

definition example_heap :: heap where
  "example_heap =
     [Some \<lparr> objectType = INT_TYPE, marked = 0, nextObject = None, intValue = 7,
             head = None, tail = None \<rparr>,
      Some \<lparr> objectType = PAIR_TYPE, marked = 0, nextObject = Some 0, intValue = 0,
             head = Some 0, tail = Some 1 \<rparr>,
      Some \<lparr> objectType = PAIR_TYPE, marked = 0, nextObject = Some 1, intValue = 0,
             head = Some 1, tail = Some 0 \<rparr>,
      Some \<lparr> objectType = INT_TYPE, marked = 0, nextObject = Some 2, intValue = 9,
             head = None, tail = None \<rparr>,
      Some \<lparr> objectType = PAIR_TYPE, marked = 0, nextObject = Some 3, intValue = 0,
             head = Some 4, tail = Some 3 \<rparr>]"

definition example_vm :: VM where
  "example_vm = \<lparr> stack = Some 2 # Some 1 # replicate 254 None, stackSize = 2, numObjects = 5,
                  maxObjects = 16, firstObject = Some 4 \<rparr>"

text \<open>A pair that is its own head and tail, with its mark bit set.\<close>

definition marked_heap :: heap where
  "marked_heap =
     [Some \<lparr> objectType = PAIR_TYPE, marked = 1, nextObject = None, intValue = 0,
             head = Some 0, tail = Some 0 \<rparr>]"

text \<open>
  A VM whose size field is past the capacity: the guard of \<open>push\<close> fires in such states
  only.
\<close>

definition overfull_vm :: VM where
  "overfull_vm = newVM\<lparr> stackSize := 257 \<rparr>"

text \<open>
  Objects as \<open>pushInt\<close> and \<open>pushPair\<close> leave them, unmarked and with the registry link \<open>n\<close>.
\<close>

definition int_obj :: "32 word \<Rightarrow> ptr \<Rightarrow> Object" where
  "int_obj v n = \<lparr> objectType = INT_TYPE, marked = 0, nextObject = n, intValue = v,
                   head = None, tail = None \<rparr>"

definition pair_obj :: "ptr \<Rightarrow> ptr \<Rightarrow> ptr \<Rightarrow> Object" where
  "pair_obj hd_p tl_p n = \<lparr> objectType = PAIR_TYPE, marked = 0, nextObject = n, intValue = 0,
                            head = hd_p, tail = tl_p \<rparr>"

text \<open>The state that 256 calls \<open>pushInt 7\<close> on a new VM leave.\<close>

definition full_heap :: heap where
  "full_heap = map (\<lambda>i. Some (int_obj 7 (if i = 0 then None else Some (i - 1)))) [0..<256]"

definition full_vm :: VM where
  "full_vm = \<lparr> stack = map Some [0..<256], stackSize = 256, numObjects = 256,
               maxObjects = 256, firstObject = Some 255 \<rparr>"

section \<open>Sequences of operations\<close>

text \<open>Sequencing as in \<^verbatim>\<open>main\<close>: the next call runs in the state the previous one returned.\<close>

fun then_do :: "'a outcome \<Rightarrow> (VM \<Rightarrow> heap \<Rightarrow> 'b outcome) \<Rightarrow> 'b outcome" where
  "then_do (Return x vm h) f = f vm h"
| "then_do (Exit e vm h) f = Exit e vm h"
| "then_do Undefined f = Undefined"

text \<open>A call of \<^verbatim>\<open>gc\<close> from the driver.\<close>

definition collect :: "VM \<Rightarrow> heap \<Rightarrow> unit outcome" where
  "collect vm h = (case gc vm h of None \<Rightarrow> Undefined | Some (vm', h') \<Rightarrow> Return () vm' h')"

text \<open>The two phases of \<^verbatim>\<open>gc\<close> without the update of the threshold.\<close>

definition mark_then_sweep :: "VM \<Rightarrow> heap \<Rightarrow> unit outcome" where
  "mark_then_sweep vm h =
     (case markAll vm h of
        None \<Rightarrow> Undefined
      | Some h1 \<Rightarrow> (case sweep vm h1 of None \<Rightarrow> Undefined | Some (vm', h') \<Rightarrow> Return () vm' h'))"

text \<open>Which way an operation ended.\<close>

fun returned :: "'a outcome \<Rightarrow> bool" where
  "returned (Return x vm h) = True"
| "returned (Exit e vm h) = False"
| "returned Undefined = False"

fun exited :: "'a outcome \<Rightarrow> bool" where
  "exited (Return x vm h) = False"
| "exited (Exit e vm h) = True"
| "exited Undefined = False"

text \<open>
  What the driver reads of a returned state (\<^verbatim>\<open>main\<close> prints the first two): the stack depth
  \<open>stackSize\<close>, the object count \<open>numObjects\<close> and the threshold \<open>maxObjects\<close>.
\<close>

definition counters :: "'a outcome \<Rightarrow> (int \<times> int \<times> int) option" where
  "counters r =
     (case r of
        Return x vm h \<Rightarrow> Some (sint (stackSize vm), sint (numObjects vm), sint (maxObjects vm))
      | Exit e vm h \<Rightarrow> None
      | Undefined \<Rightarrow> None)"

text \<open>The head of the registry chain and the heap of a returned state.\<close>

definition memory :: "'a outcome \<Rightarrow> (ptr \<times> heap) option" where
  "memory r =
     (case r of
        Return x vm h \<Rightarrow> Some (firstObject vm, h)
      | Exit e vm h \<Rightarrow> None
      | Undefined \<Rightarrow> None)"

text \<open>Runs of the operations from a new VM and an empty heap.\<close>

definition two_ints_one_popped :: "ptr outcome" where
  "two_ints_one_popped = then_do (then_do (pushInt 1 newVM []) (pushInt 2)) pop"

definition pair_and_garbage :: "ptr outcome" where
  "pair_and_garbage =
     then_do (then_do (then_do (then_do (pushInt 1 newVM []) (pushInt 2)) pushPair) (pushInt 3)) pop"

definition one_int_popped :: "ptr outcome" where
  "one_int_popped = then_do (pushInt 5 newVM []) pop"

definition main_ints :: "unit outcome" where
  "main_ints = then_do (then_do (pushInt 0 newVM []) (pushInt 1)) (pushInt 2)"

definition main_pairs :: "ptr outcome" where
  "main_pairs = then_do (then_do main_ints pushPair) pushPair"

section \<open>Word arithmetic\<close>

text \<open>Decrementing a positive 32-bit size does not wrap.\<close>

lemma sint_pred_32:
  fixes i :: "32 word"
  assumes "0 <s i"
  shows "sint (i - 1) = sint i - 1"
proof -
  have "0 < sint i" using assms by (simp add: word_sless_alt)
  moreover have "sint i < 2 ^ 31" using sint_lt [of i] by simp
  ultimately have "signed_take_bit 31 (sint i - 1) = sint i - 1"
    by (intro signed_take_bit_int_eq_self) auto
  then show ?thesis by (simp add: sint_word_diff)
qed

section \<open>Reachability and the effect of marking\<close>

text \<open>
  An induction rule for the calls of \<open>mark\<close> that return: the object is marked already, or
  it is an unmarked integer, or it is an unmarked pair and the two recursive calls return.
\<close>

lemma mark_induct_Some [consumes 1, case_names Marked Leaf Pair]:
  assumes "mark h p = Some h'"
    and marked: "\<And>h a obj. a < length h \<Longrightarrow> h ! a = Some obj \<Longrightarrow> marked obj \<noteq> 0 \<Longrightarrow> P h (Some a) h"
    and leaf: "\<And>h a obj. a < length h \<Longrightarrow> h ! a = Some obj \<Longrightarrow> marked obj = 0
        \<Longrightarrow> objectType obj \<noteq> PAIR_TYPE \<Longrightarrow> P h (Some a) (h[a := Some (obj\<lparr> marked := 1 \<rparr>)])"
    and pair: "\<And>h a obj h2 h3. a < length h \<Longrightarrow> h ! a = Some obj \<Longrightarrow> marked obj = 0
        \<Longrightarrow> objectType obj = PAIR_TYPE
        \<Longrightarrow> mark (h[a := Some (obj\<lparr> marked := 1 \<rparr>)]) (head obj) = Some h2
        \<Longrightarrow> mark h2 (tail obj) = Some h3
        \<Longrightarrow> P (h[a := Some (obj\<lparr> marked := 1 \<rparr>)]) (head obj) h2
        \<Longrightarrow> P h2 (tail obj) h3
        \<Longrightarrow> P h (Some a) h3"
  shows "P h p h'"
  using assms(1)
proof (induction h p arbitrary: h' rule: mark.induct)
  case (1 h object)
  from "1.prems" obtain obj where d: "deref h object = Some obj"
    by (auto simp: mark.simps [of h object] split: option.splits)
  from deref_SomeD [OF d] obtain a where a: "object = Some a" "a < length h" "h ! a = Some obj"
    by blast
  show ?case
  proof (cases "marked obj \<noteq> 0")
    case True
    with "1.prems" d have "h' = h" by (simp add: mark.simps [of h object])
    with marked [OF a(2,3) True] a show ?thesis by simp
  next
    case False
    then have m0: "marked obj = 0" by simp
    let ?h1 = "h[a := Some (obj\<lparr> marked := 1 \<rparr>)]"
    have s: "store h object (\<lambda>ob. ob\<lparr> marked := 1 \<rparr>) = Some ?h1"
      using a d by (simp add: store_def)
    show ?thesis
    proof (cases "objectType obj = PAIR_TYPE")
      case True
      from "1.prems" d m0 s True obtain h2 where
        m1: "mark ?h1 (head obj) = Some h2" and m2: "mark h2 (tail obj) = Some h'"
        by (auto simp: mark.simps [of h object] split: option.splits)
      have p1: "P ?h1 (head obj) h2" using "1.IH"(1) [OF d False s True m1] .
      have p2: "P h2 (tail obj) h'" using "1.IH"(2) [OF d False s True m1 m2] .
      from pair [OF a(2,3) m0 True m1 m2 p1 p2] a show ?thesis by simp
    next
      case F: False
      with "1.prems" d m0 s have "h' = ?h1" by (simp add: mark.simps [of h object])
      with leaf [OF a(2,3) m0 F] a show ?thesis by simp
    qed
  qed
qed

lemma marks_only_refl: "marks_only h h"
  by (simp add: marks_only_def)

lemma marks_only_trans:
  assumes "marks_only h1 h2" "marks_only h2 h3"
  shows "marks_only h1 h3"
  unfolding marks_only_def
proof (intro conjI allI impI)
  show "length h3 = length h1" using assms by (simp add: marks_only_def)
next
  fix a assume a: "a < length h1"
  with assms have a2: "a < length h2" by (simp add: marks_only_def)
  from assms(1) a have c1: "h2 ! a = h1 ! a \<or>
        (\<exists>obj. h1 ! a = Some obj \<and> marked obj = 0 \<and> h2 ! a = Some (obj\<lparr> marked := 1 \<rparr>))"
    by (simp add: marks_only_def)
  from assms(2) a2 have c2: "h3 ! a = h2 ! a \<or>
        (\<exists>obj. h2 ! a = Some obj \<and> marked obj = 0 \<and> h3 ! a = Some (obj\<lparr> marked := 1 \<rparr>))"
    by (simp add: marks_only_def)
  show "h3 ! a = h1 ! a \<or>
        (\<exists>obj. h1 ! a = Some obj \<and> marked obj = 0 \<and> h3 ! a = Some (obj\<lparr> marked := 1 \<rparr>))"
  proof (cases "h2 ! a = h1 ! a")
    case True
    with c2 show ?thesis by simp
  next
    case False
    with c1 obtain obj where o: "h1 ! a = Some obj" "marked obj = 0"
      "h2 ! a = Some (obj\<lparr> marked := 1 \<rparr>)" by blast
    with c2 have "h3 ! a = h2 ! a" by auto
    with o show ?thesis by simp
  qed
qed

lemma marks_only_step:
  assumes "a < length h" "h ! a = Some obj" "marked obj = 0"
  shows "marks_only h (h[a := Some (obj\<lparr> marked := 1 \<rparr>)])"
  using assms by (auto simp: marks_only_def nth_list_update)

lemma mark_marks_only: "mark h p = Some h' \<Longrightarrow> marks_only h h'"
proof (induction rule: mark_induct_Some)
  case (Marked h a obj)
  show ?case by (rule marks_only_refl)
next
  case (Leaf h a obj)
  then show ?case by (simp add: marks_only_step)
next
  case (Pair h a obj h2 h3)
  from marks_only_step [OF Pair(1,2,3)] Pair.IH show ?case
    by (blast intro: marks_only_trans)
qed

text \<open>What \<open>marks_only\<close> preserves.\<close>

lemma marks_only_deref:
  assumes "marks_only h h'" "deref h p = Some obj"
  shows "\<exists>m. deref h' p = Some (obj\<lparr> marked := m \<rparr>) \<and> (marked obj \<noteq> 0 \<longrightarrow> m = marked obj)
             \<and> (m = marked obj \<or> m = 1)"
proof -
  from deref_SomeD [OF assms(2)] obtain a where a: "p = Some a" "a < length h" "h ! a = Some obj"
    by blast
  from assms(1) a have "h' ! a = Some obj \<or> (marked obj = 0 \<and> h' ! a = Some (obj\<lparr> marked := 1 \<rparr>))"
    by (auto simp: marks_only_def)
  then show ?thesis
  proof
    assume "h' ! a = Some obj"
    then have "deref h' p = Some (obj\<lparr> marked := marked obj \<rparr>)"
      using a assms(1) by (simp add: deref_def marks_only_def)
    then show ?thesis by blast
  next
    assume "marked obj = 0 \<and> h' ! a = Some (obj\<lparr> marked := 1 \<rparr>)"
    then have "deref h' p = Some (obj\<lparr> marked := 1 \<rparr>)" "marked obj = 0"
      using a assms(1) by (simp_all add: deref_def marks_only_def)
    then show ?thesis by blast
  qed
qed

lemma marks_only_deref_back:
  assumes "marks_only h h'" "deref h' p = Some obj'"
  shows "\<exists>obj. deref h p = Some obj \<and> obj' = obj\<lparr> marked := marked obj' \<rparr>"
proof -
  from deref_SomeD [OF assms(2)] obtain a where a: "p = Some a" "a < length h'" "h' ! a = Some obj'"
    by blast
  with assms(1) have al: "a < length h" by (simp add: marks_only_def)
  with assms(1) a have "h ! a = Some obj' \<or> (\<exists>obj. h ! a = Some obj \<and> obj' = obj\<lparr> marked := 1 \<rparr>)"
    by (auto simp: marks_only_def)
  then show ?thesis using a al by (auto simp: deref_def)
qed

lemma marks_only_deref_None:
  "marks_only h h' \<Longrightarrow> deref h' p = None \<longleftrightarrow> deref h p = None"
  using marks_only_deref [of h h' p] marks_only_deref_back [of h h' p]
  by (cases "deref h p"; cases "deref h' p") auto

lemma marks_only_is_marked:
  "marks_only h h' \<Longrightarrow> is_marked h p \<Longrightarrow> is_marked h' p"
  using marks_only_deref [of h h' p]
  by (auto simp: is_marked_def split: option.splits)

lemma marks_only_reach:
  assumes "marks_only h h'"
  shows "reach h' R = reach h R"
proof (intro set_eqI iffI)
  fix x assume "x \<in> reach h' R"
  then show "x \<in> reach h R"
  proof (induction rule: reach.induct)
    case (root a) then show ?case by (rule reach.root)
  next
    case (via_head a obj b)
    from marks_only_deref_back [OF assms via_head(2)] obtain ob where
      "deref h (Some a) = Some ob" "obj = ob\<lparr> marked := marked obj \<rparr>" by blast
    moreover from this via_head have "objectType ob = PAIR_TYPE" "head ob = Some b"
      by (metis Object.select_convs Object.surjective Object.update_convs)+
    ultimately show ?case using via_head.IH by (blast intro: reach.via_head)
  next
    case (via_tail a obj b)
    from marks_only_deref_back [OF assms via_tail(2)] obtain ob where
      "deref h (Some a) = Some ob" "obj = ob\<lparr> marked := marked obj \<rparr>" by blast
    moreover from this via_tail have "objectType ob = PAIR_TYPE" "tail ob = Some b"
      by (metis Object.select_convs Object.surjective Object.update_convs)+
    ultimately show ?case using via_tail.IH by (blast intro: reach.via_tail)
  qed
next
  fix x assume "x \<in> reach h R"
  then show "x \<in> reach h' R"
  proof (induction rule: reach.induct)
    case (root a) then show ?case by (rule reach.root)
  next
    case (via_head a obj b)
    from marks_only_deref [OF assms via_head(2)] obtain m where
      "deref h' (Some a) = Some (obj\<lparr> marked := m \<rparr>)" by blast
    with via_head show ?case by (auto intro: reach.via_head)
  next
    case (via_tail a obj b)
    from marks_only_deref [OF assms via_tail(2)] obtain m where
      "deref h' (Some a) = Some (obj\<lparr> marked := m \<rparr>)" by blast
    with via_tail show ?case by (auto intro: reach.via_tail)
  qed
qed

lemma reach_mono: "a \<in> reach h R \<Longrightarrow> R \<subseteq> R' \<Longrightarrow> a \<in> reach h R'"
  by (induction rule: reach.induct) (auto intro: reach.intros)

lemma reach_trans:
  assumes "a \<in> reach h {r}" "r \<in> reach h R"
  shows "a \<in> reach h R"
  using assms by (induction rule: reach.induct) (auto intro: reach.intros)

lemma is_marked_update [simp]:
  "a < length h \<Longrightarrow> is_marked (h[a := Some obj]) (Some a) \<longleftrightarrow> marked obj \<noteq> 0"
  by (simp add: is_marked_def deref_def)

lemma is_marked_update_other:
  "b \<noteq> a \<Longrightarrow> is_marked (h[a := c]) (Some b) \<longleftrightarrow> is_marked h (Some b)"
  by (simp add: is_marked_def deref_def)

lemma mark_is_marked: "mark h p = Some h' \<Longrightarrow> is_marked h' p"
proof (induction rule: mark_induct_Some)
  case (Marked h a obj)
  then show ?case by (simp add: is_marked_def deref_def)
next
  case (Leaf h a obj)
  then show ?case by simp
next
  case (Pair h a obj h2 h3)
  let ?h1 = "h[a := Some (obj\<lparr> marked := 1 \<rparr>)]"
  have "is_marked ?h1 (Some a)" using Pair(1) by simp
  moreover have "marks_only ?h1 h3"
    using mark_marks_only [OF Pair(5)] mark_marks_only [OF Pair(6)] by (rule marks_only_trans)
  ultimately show ?case by (rule marks_only_is_marked [rotated])
qed

lemma closed_at_mono:
  assumes "marks_only h h'" "closed_at h a"
  shows "closed_at h' a"
proof -
  from assms(2) obtain obj where d: "deref h (Some a) = Some obj"
    and c: "objectType obj = PAIR_TYPE \<longrightarrow> is_marked h (head obj) \<and> is_marked h (tail obj)"
    by (auto simp: closed_at_def split: option.splits)
  from marks_only_deref [OF assms(1) d] obtain m where
    d': "deref h' (Some a) = Some (obj\<lparr> marked := m \<rparr>)" by blast
  from c assms(1) have "objectType obj = PAIR_TYPE \<longrightarrow> is_marked h' (head obj) \<and> is_marked h' (tail obj)"
    by (blast intro: marks_only_is_marked)
  with d' show ?thesis by (simp add: closed_at_def)
qed

lemma mark_new_closed:
  "mark h p = Some h' \<Longrightarrow> is_marked h' (Some x) \<Longrightarrow> \<not> is_marked h (Some x) \<Longrightarrow> closed_at h' x"
proof (induction rule: mark_induct_Some)
  case (Marked h a obj)
  then show ?case by simp
next
  case (Leaf h a obj)
  then have "x = a" by (cases "x = a") (simp_all add: is_marked_update_other)
  with Leaf show ?case by (simp add: closed_at_def deref_def)
next
  case (Pair h a obj h2 h3)
  let ?h1 = "h[a := Some (obj\<lparr> marked := 1 \<rparr>)]"
  have mo12: "marks_only ?h1 h2" by (rule mark_marks_only [OF Pair(5)])
  have mo23: "marks_only h2 h3" by (rule mark_marks_only [OF Pair(6)])
  show ?case
  proof (cases "x = a")
    case True
    have "deref ?h1 (Some a) = Some (obj\<lparr> marked := 1 \<rparr>)" using Pair(1) by (simp add: deref_def)
    from marks_only_deref [OF marks_only_trans [OF mo12 mo23] this]
    obtain m where d3: "deref h3 (Some a) = Some (obj\<lparr> marked := m \<rparr>)" by auto
    have "is_marked h2 (head obj)" by (rule mark_is_marked [OF Pair(5)])
    then have "is_marked h3 (head obj)" by (rule marks_only_is_marked [OF mo23])
    moreover have "is_marked h3 (tail obj)" by (rule mark_is_marked [OF Pair(6)])
    ultimately show ?thesis using d3 True by (simp add: closed_at_def)
  next
    case False
    with Pair.prems have n1: "\<not> is_marked ?h1 (Some x)" by (simp add: is_marked_update_other)
    show ?thesis
    proof (cases "is_marked h2 (Some x)")
      case True
      then have "closed_at h2 x" using n1 by (rule Pair.IH(1))
      then show ?thesis by (rule closed_at_mono [OF mo23])
    next
      case False
      with Pair.prems show ?thesis by (intro Pair.IH(2))
    qed
  qed
qed

lemma mark_new_reach:
  "mark h p = Some h' \<Longrightarrow> is_marked h' (Some x) \<Longrightarrow> \<not> is_marked h (Some x)
     \<Longrightarrow> \<exists>r. p = Some r \<and> x \<in> reach h {r}"
proof (induction rule: mark_induct_Some)
  case (Marked h a obj)
  then show ?case by simp
next
  case (Leaf h a obj)
  then have "x = a" by (cases "x = a") (simp_all add: is_marked_update_other)
  then show ?case by (simp add: reach.root)
next
  case (Pair h a obj h2 h3)
  let ?h1 = "h[a := Some (obj\<lparr> marked := 1 \<rparr>)]"
  have mo1: "marks_only h ?h1" by (rule marks_only_step [OF Pair(1,2,3)])
  have mo12: "marks_only ?h1 h2" by (rule mark_marks_only [OF Pair(5)])
  have d: "deref h (Some a) = Some obj" using Pair(1,2) by (simp add: deref_def)
  show ?case
  proof (cases "x = a")
    case True
    then show ?thesis by (simp add: reach.root)
  next
    case False
    with Pair.prems have n1: "\<not> is_marked ?h1 (Some x)" by (simp add: is_marked_update_other)
    show ?thesis
    proof (cases "is_marked h2 (Some x)")
      case True
      from Pair.IH(1) [OF True n1] obtain r where r: "head obj = Some r" "x \<in> reach ?h1 {r}"
        by blast
      then have "x \<in> reach h {r}" using marks_only_reach [OF mo1] by simp
      moreover have "r \<in> reach h {a}"
        using d Pair(4) r(1) by (blast intro: reach.via_head reach.root)
      ultimately show ?thesis by (blast intro: reach_trans)
    next
      case False
      from Pair.IH(2) [OF Pair.prems(1) False] obtain r where
        r: "tail obj = Some r" "x \<in> reach h2 {r}" by blast
      then have "x \<in> reach h {r}"
        using marks_only_reach [OF mo1] marks_only_reach [OF mo12] by simp
      moreover have "r \<in> reach h {a}"
        using d Pair(4) r(1) by (blast intro: reach.via_tail reach.root)
      ultimately show ?thesis by (blast intro: reach_trans)
    qed
  qed
qed

lemma closed_set_marks_only:
  assumes "marks_only h h'" "closed_set h S"
  shows "closed_set h' S"
  unfolding closed_set_def
proof
  fix a assume "a \<in> S"
  with assms(2) obtain obj where d: "deref h (Some a) = Some obj"
    and c: "objectType obj = PAIR_TYPE \<longrightarrow> head obj \<in> Some ` S \<and> tail obj \<in> Some ` S"
    by (auto simp: closed_set_def split: option.splits)
  from marks_only_deref [OF assms(1) d] obtain m where
    "deref h' (Some a) = Some (obj\<lparr> marked := m \<rparr>)" by blast
  with c show "case deref h' (Some a) of None \<Rightarrow> False
         | Some obj \<Rightarrow> objectType obj = PAIR_TYPE \<longrightarrow> head obj \<in> Some ` S \<and> tail obj \<in> Some ` S"
    by simp
qed

lemma closed_set_reach:
  assumes "closed_set h S" "R \<subseteq> S" "a \<in> reach h R"
  shows "a \<in> S"
  using assms(3)
proof (induction rule: reach.induct)
  case (root a)
  with assms(2) show ?case by blast
next
  case (via_head a obj b)
  with assms(1) show ?case by (auto simp: closed_set_def split: option.splits)
next
  case (via_tail a obj b)
  with assms(1) show ?case by (auto simp: closed_set_def split: option.splits)
qed

lemma mark_returns:
  "closed_set h S \<Longrightarrow> p \<in> Some ` S \<Longrightarrow> \<exists>h'. mark h p = Some h'"
proof (induction h p rule: mark.induct)
  case (1 h object)
  from "1.prems" obtain a obj where a: "object = Some a" "a \<in> S"
    and d: "deref h object = Some obj"
    and c: "objectType obj = PAIR_TYPE \<longrightarrow> head obj \<in> Some ` S \<and> tail obj \<in> Some ` S"
    by (auto simp: closed_set_def split: option.splits)
  from deref_SomeD [OF d] a have al: "a < length h" "h ! a = Some obj" by auto
  show ?case
  proof (cases "marked obj \<noteq> 0")
    case True
    with d show ?thesis by (simp add: mark.simps [of h object])
  next
    case False
    let ?h1 = "h[a := Some (obj\<lparr> marked := 1 \<rparr>)]"
    have s: "store h object (\<lambda>ob. ob\<lparr> marked := 1 \<rparr>) = Some ?h1"
      using a d by (simp add: store_def)
    show ?thesis
    proof (cases "objectType obj = PAIR_TYPE")
      case True
      have mo1: "marks_only h ?h1" using al False by (simp add: marks_only_step)
      then have c1: "closed_set ?h1 S" using "1.prems"(1) by (rule closed_set_marks_only)
      from "1.IH"(1) [OF d False s True c1] c True obtain h2 where
        m1: "mark ?h1 (head obj) = Some h2" by blast
      have "closed_set h2 S" using mark_marks_only [OF m1] c1 by (rule closed_set_marks_only)
      from "1.IH"(2) [OF d False s True m1 this] c True obtain h3 where
        "mark h2 (tail obj) = Some h3" by blast
      with d False s True m1 show ?thesis by (simp add: mark.simps [of h object])
    next
      case F: False
      with d False s show ?thesis by (simp add: mark.simps [of h object])
    qed
  qed
qed

section \<open>Marking a list of roots\<close>

lemma markAll_loop_mark_list:
  "stack_ok vm \<Longrightarrow> 0 \<le> sint i \<Longrightarrow> sint i \<le> sint (stackSize vm)
     \<Longrightarrow> markAll_loop vm i h = mark_list h (drop (nat (sint i)) (live_stack vm))"
proof (induction vm i h rule: markAll_loop.induct)
  case (1 vm i h)
  show ?case
  proof (cases "i <s stackSize vm")
    case True
    then have lt: "sint i < sint (stackSize vm)" by (simp add: word_sless_alt)
    have ni: "nat (sint i) < nat (sint (stackSize vm))" using lt "1.prems"(2) by linarith
    have ns: "nat (sint (stackSize vm)) \<le> 256" using "1.prems"(1) unfolding stack_ok_def by linarith
    have i256: "sint i < 256" using lt "1.prems"(1) unfolding stack_ok_def by linarith
    then have "nat (sint i) < 256" by linarith
    with i256 "1.prems" have ib: "in_bounds vm i"
      by (simp add: in_bounds_def stack_ok_def STACK_MAX_SIZE_def)
    have s1: "sint (i + 1) = sint i + 1" by (rule sint_succ_32 [OF True])
    from ni ns "1.prems"(1) have len: "nat (sint i) < length (live_stack vm)"
      by (simp add: live_stack_def stack_ok_def)
    have dr: "drop (nat (sint i)) (live_stack vm)
        = stack vm ! nat (sint i) # drop (nat (sint (i + 1))) (live_stack vm)"
      using len "1.prems" s1
      by (simp add: Cons_nth_drop_Suc [symmetric] live_stack_def nat_add_distrib)
    show ?thesis
    proof (cases "mark h (stack vm ! nat (sint i))")
      case None
      with True ib dr show ?thesis by (simp add: markAll_loop.simps [of vm i h])
    next
      case (Some h1)
      from "1.IH" [OF True ib Some "1.prems"(1)] s1 lt "1.prems"
      have "markAll_loop vm (i + 1) h1 = mark_list h1 (drop (nat (sint (i + 1))) (live_stack vm))"
        by simp
      with True ib dr Some show ?thesis by (simp add: markAll_loop.simps [of vm i h])
    qed
  next
    case False
    with "1.prems" have "sint i = sint (stackSize vm)" by (simp add: word_sless_alt)
    then show ?thesis using False "1.prems"
      by (simp add: markAll_loop.simps [of vm i h] live_stack_def stack_ok_def)
  qed
qed

lemma markAll_mark_list: "stack_ok vm \<Longrightarrow> markAll vm h = mark_list h (live_stack vm)"
  using markAll_loop_mark_list [of vm 0 h] by (simp add: markAll_def stack_ok_def)

lemma mark_list_marks_only: "mark_list h ps = Some h' \<Longrightarrow> marks_only h h'"
proof (induction ps arbitrary: h)
  case Nil
  then show ?case by (simp add: marks_only_refl)
next
  case (Cons p ps)
  then obtain h1 where m: "mark h p = Some h1" and l: "mark_list h1 ps = Some h'"
    by (auto split: option.splits)
  from mark_marks_only [OF m] Cons.IH [OF l] show ?case by (rule marks_only_trans)
qed

lemma mark_list_is_marked:
  "mark_list h ps = Some h' \<Longrightarrow> p \<in> set ps \<Longrightarrow> is_marked h' p"
proof (induction ps arbitrary: h)
  case Nil
  then show ?case by simp
next
  case (Cons q ps)
  then obtain h1 where m: "mark h q = Some h1" and l: "mark_list h1 ps = Some h'"
    by (auto split: option.splits)
  show ?case
  proof (cases "p = q")
    case True
    with mark_is_marked [OF m] mark_list_marks_only [OF l] show ?thesis
      by (blast intro: marks_only_is_marked)
  next
    case False
    with Cons.prems have "p \<in> set ps" by simp
    with Cons.IH [OF l] show ?thesis by simp
  qed
qed

lemma mark_list_new_closed:
  "mark_list h ps = Some h' \<Longrightarrow> is_marked h' (Some x) \<Longrightarrow> \<not> is_marked h (Some x)
     \<Longrightarrow> closed_at h' x"
proof (induction ps arbitrary: h)
  case Nil
  then show ?case by simp
next
  case (Cons q ps)
  then obtain h1 where m: "mark h q = Some h1" and l: "mark_list h1 ps = Some h'"
    by (auto split: option.splits)
  show ?case
  proof (cases "is_marked h1 (Some x)")
    case True
    then have "closed_at h1 x" using Cons.prems(3) by (rule mark_new_closed [OF m])
    with mark_list_marks_only [OF l] show ?thesis by (rule closed_at_mono)
  next
    case False
    with Cons.IH [OF l Cons.prems(2)] show ?thesis by simp
  qed
qed

lemma mark_list_new_reach:
  "mark_list h ps = Some h' \<Longrightarrow> is_marked h' (Some x) \<Longrightarrow> \<not> is_marked h (Some x)
     \<Longrightarrow> x \<in> reach h (addrs_of ps)"
proof (induction ps arbitrary: h)
  case Nil
  then show ?case by simp
next
  case (Cons q ps)
  then obtain h1 where m: "mark h q = Some h1" and l: "mark_list h1 ps = Some h'"
    by (auto split: option.splits)
  show ?case
  proof (cases "is_marked h1 (Some x)")
    case True
    from mark_new_reach [OF m True Cons.prems(3)] obtain r where
      r: "q = Some r" "x \<in> reach h {r}" by blast
    then have "{r} \<subseteq> addrs_of (q # ps)" by (simp add: addrs_of_def)
    with r(2) show ?thesis by (rule reach_mono)
  next
    case False
    from Cons.IH [OF l Cons.prems(2) False] have "x \<in> reach h1 (addrs_of ps)" .
    then have "x \<in> reach h (addrs_of ps)"
      using marks_only_reach [OF mark_marks_only [OF m]] by simp
    moreover have "addrs_of ps \<subseteq> addrs_of (q # ps)" by (auto simp: addrs_of_def)
    ultimately show ?thesis by (rule reach_mono)
  qed
qed

lemma mark_list_returns:
  "closed_set h S \<Longrightarrow> set ps \<subseteq> Some ` S \<Longrightarrow> \<exists>h'. mark_list h ps = Some h'"
proof (induction ps arbitrary: h)
  case Nil
  then show ?case by simp
next
  case (Cons q ps)
  then have "q \<in> Some ` S" by simp
  from mark_returns [OF Cons.prems(1) this] obtain h1 where m: "mark h q = Some h1" by blast
  have "closed_set h1 S" using mark_marks_only [OF m] Cons.prems(1) by (rule closed_set_marks_only)
  from Cons.IH [OF this] Cons.prems(2) obtain h' where "mark_list h1 ps = Some h'" by auto
  with m show ?case by simp
qed

lemma mark_list_reach_marked:
  assumes l: "mark_list h ps = Some h'"
    and un: "\<forall>a\<in>reach h (addrs_of ps). \<not> is_marked h (Some a)"
    and x: "x \<in> reach h (addrs_of ps)"
  shows "is_marked h' (Some x)"
  using x
proof (induction rule: reach.induct)
  case (root a)
  then have "Some a \<in> set ps" by (simp add: addrs_of_def)
  with l show ?case by (rule mark_list_is_marked)
next
  case (via_head a obj b)
  from un via_head(1) have "\<not> is_marked h (Some a)" by blast
  with mark_list_new_closed [OF l via_head.IH] have c: "closed_at h' a" by simp
  from marks_only_deref [OF mark_list_marks_only [OF l] via_head(2)] obtain m where
    "deref h' (Some a) = Some (obj\<lparr> marked := m \<rparr>)" by blast
  with c via_head(3,4) show ?case by (simp add: closed_at_def)
next
  case (via_tail a obj b)
  from un via_tail(1) have "\<not> is_marked h (Some a)" by blast
  with mark_list_new_closed [OF l via_tail.IH] have c: "closed_at h' a" by simp
  from marks_only_deref [OF mark_list_marks_only [OF l] via_tail(2)] obtain m where
    "deref h' (Some a) = Some (obj\<lparr> marked := m \<rparr>)" by blast
  with c via_tail(3,4) show ?case by (simp add: closed_at_def)
qed

lemma chain_frame:
  "length h' = length h \<Longrightarrow> \<forall>x\<in>set as. \<exists>obj obj'. h ! x = Some obj \<and> h' ! x = Some obj' \<and> nextObject obj' = nextObject obj
     \<Longrightarrow> chain h p as \<Longrightarrow> chain h' p as"
proof (induction as arbitrary: p)
  case Nil
  then show ?case by simp
next
  case (Cons a as)
  from Cons.prems(3) obtain obj where p: "p = Some a" and d: "deref h p = Some obj"
    and c: "chain h (nextObject obj) as" by (auto split: option.splits)
  from deref_SomeD [OF d] p have al: "a < length h" "h ! a = Some obj" by auto
  from Cons.prems(2) al obtain obj' where o': "h' ! a = Some obj'" "nextObject obj' = nextObject obj"
    by auto
  from Cons.IH [OF Cons.prems(1) _ c] Cons.prems(2) have "chain h' (nextObject obj) as" by simp
  with p al o' Cons.prems(1) show ?case by (simp add: deref_def)
qed

lemma chain_allocated:
  "chain h p as \<Longrightarrow> a \<in> set as \<Longrightarrow> \<exists>obj. a < length h \<and> h ! a = Some obj"
proof (induction as arbitrary: p)
  case Nil
  then show ?case by simp
next
  case (Cons b as)
  from Cons.prems(1) obtain obj where p: "p = Some b" and d: "deref h p = Some obj"
    and c: "chain h (nextObject obj) as" by (auto split: option.splits)
  show ?case
  proof (cases "a = b")
    case True
    with deref_SomeD [OF d] p show ?thesis by auto
  next
    case False
    with Cons.prems(2) have "a \<in> set as" by simp
    with Cons.IH [OF c] show ?thesis by simp
  qed
qed

lemma chain_marks_only:
  assumes "marks_only h h'" "chain h p as"
  shows "chain h' p as"
proof (rule chain_frame [OF _ _ assms(2)])
  show "length h' = length h" using assms(1) by (simp add: marks_only_def)
  show "\<forall>x\<in>set as. \<exists>obj obj'. h ! x = Some obj \<and> h' ! x = Some obj' \<and> nextObject obj' = nextObject obj"
  proof
    fix x assume "x \<in> set as"
    from chain_allocated [OF assms(2) this] obtain obj where x: "x < length h" "h ! x = Some obj"
      by blast
    with assms(1) have "h' ! x = Some obj \<or> h' ! x = Some (obj\<lparr> marked := 1 \<rparr>)"
      by (auto simp: marks_only_def)
    with x show "\<exists>obj obj'. h ! x = Some obj \<and> h' ! x = Some obj' \<and> nextObject obj' = nextObject obj"
      by auto
  qed
qed

section \<open>The effect of sweeping\<close>

text \<open>
  The sweep loop, started on a link that holds the head of a chain, filters the chain in
  place: it returns, the link then holds the head of the chain of the marked objects, and
  the heap has changed as \<open>swept\<close> says.
\<close>

lemma kept_cong:
  "\<forall>x\<in>set as. x < length h \<and> h' ! x = h ! x \<Longrightarrow> length h' = length h \<Longrightarrow> kept h' as = kept h as"
  unfolding kept_def by (rule filter_cong) (auto simp: is_marked_def deref_def)

lemma chain_same:
  assumes "length h' = length h" "\<forall>x\<in>set as. h' ! x = h ! x" "chain h p as"
  shows "chain h' p as"
proof (rule chain_frame [OF assms(1) _ assms(3)])
  show "\<forall>x\<in>set as. \<exists>obj obj'. h ! x = Some obj \<and> h' ! x = Some obj' \<and> nextObject obj' = nextObject obj"
    using chain_allocated [OF assms(3)] assms(2) by fastforce
qed

lemma read_slot_owner:
  "read_slot vm h (NextObject_slot b) = Some p \<Longrightarrow>
     \<exists>ob. b < length h \<and> h ! b = Some ob \<and> nextObject ob = p"
  by (auto simp: read_slot_def dest!: deref_SomeD)

lemma sweptD:
  "swept h as s h' \<Longrightarrow> c < length h \<Longrightarrow>
     (if c \<in> set as
        then (if is_marked h (Some c)
              then (\<exists>obj n. h ! c = Some obj \<and> h' ! c = Some (obj\<lparr> marked := 0, nextObject := n \<rparr>))
              else h' ! c = None)
        else if s = NextObject_slot c
        then (\<exists>ob n. h ! c = Some ob \<and> h' ! c = Some (ob\<lparr> nextObject := n \<rparr>))
        else h' ! c = h ! c)"
  unfolding swept_def by blast

lemma self_next: "\<exists>n. ob = ob\<lparr> nextObject := n \<rparr>"
  by (rule exI [of _ "nextObject ob"]) simp

lemma sweep_loop_chain:
  "read_slot vm h s = Some p \<Longrightarrow> chain h p as \<Longrightarrow> distinct as
   \<Longrightarrow> (\<forall>b. s = NextObject_slot b \<longrightarrow> b \<notin> set as)
   \<Longrightarrow> \<exists>vm' h' p'. sweep_loop vm h s = Some (vm', h') \<and> read_slot vm' h' s = Some p'
          \<and> chain h' p' (kept h as) \<and> swept h as s h' \<and> vm' = slot_vm vm s p'"
proof (induction as arbitrary: vm h p s)
  case Nil
  then have p: "p = None" by simp
  with Nil.prems(1) have sl: "sweep_loop vm h s = Some (vm, h)"
    by (simp add: sweep_loop.simps [of vm h s])
  have "swept h [] s h"
    unfolding swept_def using Nil.prems(1) by (auto simp: self_next dest!: read_slot_owner)
  moreover have "vm = slot_vm vm s None"
    using Nil.prems(1) p by (cases s) (simp_all add: slot_vm_def read_slot_def)
  ultimately show ?case using sl Nil.prems(1) p by (auto simp: kept_def)
next
  case (Cons a as)
  from Cons.prems(2) obtain obj where p: "p = Some a" and d: "deref h (Some a) = Some obj"
    and c: "chain h (nextObject obj) as" by (auto split: option.splits)
  from deref_SomeD [OF d] have al: "a < length h" "h ! a = Some obj" by auto
  from Cons.prems(3) have na: "a \<notin> set as" and dist: "distinct as" by simp_all
  from Cons.prems(4) have sa: "s \<noteq> NextObject_slot a"
    and so: "\<forall>b. s = NextObject_slot b \<longrightarrow> b \<notin> set as" by auto
  have alloc: "\<And>x. x \<in> set as \<Longrightarrow> x < length h" using chain_allocated [OF c] by blast
  show ?case
  proof (cases "marked obj = 0")
    case True
    then have nm: "\<not> is_marked h (Some a)" using d by (simp add: is_marked_def)
    have "\<exists>vm1 h1. write_slot vm h s (nextObject obj) = Some (vm1, h1)
         \<and> vm1 = slot_vm vm s (nextObject obj) \<and> length h1 = length h
         \<and> (\<forall>x<length h. s \<noteq> NextObject_slot x \<longrightarrow> h1 ! x = h ! x)
         \<and> (\<forall>b. s = NextObject_slot b \<longrightarrow>
               (\<exists>ob. h ! b = Some ob \<and> h1 ! b = Some (ob\<lparr> nextObject := nextObject obj \<rparr>)))"
    proof (cases s)
      case FirstObject_slot
      then show ?thesis by (simp add: write_slot_def slot_vm_def)
    next
      case (NextObject_slot b)
      with read_slot_owner Cons.prems(1) obtain ob where "b < length h" "h ! b = Some ob"
        by blast
      with NextObject_slot show ?thesis
        by (simp add: write_slot_def slot_vm_def store_def deref_def)
    qed
    then obtain vm1 h1 where w: "write_slot vm h s (nextObject obj) = Some (vm1, h1)"
      and vm1: "vm1 = slot_vm vm s (nextObject obj)" and len1: "length h1 = length h"
      and same1: "\<forall>x<length h. s \<noteq> NextObject_slot x \<longrightarrow> h1 ! x = h ! x"
      and own1: "\<forall>b. s = NextObject_slot b \<longrightarrow>
               (\<exists>ob. h ! b = Some ob \<and> h1 ! b = Some (ob\<lparr> nextObject := nextObject obj \<rparr>))"
      by blast
    let ?h2 = "free h1 a"
    have len2: "length ?h2 = length h" using len1 by (simp add: free_def)
    have a2: "?h2 ! a = None" using al len1 by (simp add: free_def)
    have same2: "\<And>x. x < length h \<Longrightarrow> x \<noteq> a \<Longrightarrow> s \<noteq> NextObject_slot x \<Longrightarrow> ?h2 ! x = h ! x"
      using same1 by (simp add: free_def)
    have own2: "\<And>b. s = NextObject_slot b \<Longrightarrow>
               \<exists>ob. b < length h \<and> h ! b = Some ob \<and> ?h2 ! b = Some (ob\<lparr> nextObject := nextObject obj \<rparr>)"
    proof -
      fix b assume b: "s = NextObject_slot b"
      with sa have "b \<noteq> a" by auto
      moreover from read_slot_owner Cons.prems(1) b have "b < length h" by blast
      ultimately show "\<exists>ob. b < length h \<and> h ! b = Some ob \<and> ?h2 ! b = Some (ob\<lparr> nextObject := nextObject obj \<rparr>)"
        using own1 b by (simp add: free_def)
    qed
    have r2: "read_slot vm1 ?h2 s = Some (nextObject obj)"
    proof (cases s)
      case FirstObject_slot
      then show ?thesis using vm1 by (simp add: read_slot_def slot_vm_def)
    next
      case (NextObject_slot b)
      from own2 [OF this] len2 show ?thesis using NextObject_slot
        by (auto simp: read_slot_def deref_def)
    qed
    have eq2: "\<forall>x\<in>set as. x < length h \<and> ?h2 ! x = h ! x"
    proof
      fix x assume xs: "x \<in> set as"
      then have xl: "x < length h" by (rule alloc)
      moreover from xs na have "x \<noteq> a" by blast
      moreover from xs so have "s \<noteq> NextObject_slot x" by blast
      ultimately have "?h2 ! x = h ! x" by (rule same2)
      with xl show "x < length h \<and> ?h2 ! x = h ! x" by simp
    qed
    have c2: "chain ?h2 (nextObject obj) as"
      by (rule chain_same [OF len2 _ c]) (use eq2 in blast)
    from Cons.IH [OF r2 c2 dist so] obtain vm' h' p' where
      sl: "sweep_loop vm1 ?h2 s = Some (vm', h')" and r': "read_slot vm' h' s = Some p'"
      and c': "chain h' p' (kept ?h2 as)" and sw: "swept ?h2 as s h'"
      and vm': "vm' = slot_vm vm1 s p'" by blast
    have "sweep_loop vm h s = Some (vm', h')"
      using Cons.prems(1) p d True w sl by (simp add: sweep_loop.simps [of vm h s])
    moreover have "kept h (a # as) = kept ?h2 as"
      using nm kept_cong [OF eq2 len2] by (simp add: kept_def)
    moreover have "vm' = slot_vm vm s p'"
      using vm' vm1 by (cases s) (simp_all add: slot_vm_def)
    moreover have "swept h (a # as) s h'"
      unfolding swept_def
    proof (intro conjI allI impI)
      show "length h' = length h" using sw len2 by (simp add: swept_def)
    next
      fix x assume x: "x < length h"
      from sw x len2 have swx: "if x \<in> set as
        then (if is_marked ?h2 (Some x)
              then (\<exists>obj n. ?h2 ! x = Some obj \<and> h' ! x = Some (obj\<lparr> marked := 0, nextObject := n \<rparr>))
              else h' ! x = None)
        else if s = NextObject_slot x
        then (\<exists>ob n. ?h2 ! x = Some ob \<and> h' ! x = Some (ob\<lparr> nextObject := n \<rparr>))
        else h' ! x = ?h2 ! x" by (intro sweptD) (simp_all add: len2)
      consider (a) "x = a" | (as) "x \<in> set as" | (own) "x \<noteq> a" "x \<notin> set as" "s = NextObject_slot x"
        | (other) "x \<noteq> a" "x \<notin> set as" "s \<noteq> NextObject_slot x" by blast
      then show "if x \<in> set (a # as)
        then (if is_marked h (Some x)
              then (\<exists>obj n. h ! x = Some obj \<and> h' ! x = Some (obj\<lparr> marked := 0, nextObject := n \<rparr>))
              else h' ! x = None)
        else if s = NextObject_slot x
        then (\<exists>ob n. h ! x = Some ob \<and> h' ! x = Some (ob\<lparr> nextObject := n \<rparr>))
        else h' ! x = h ! x"
      proof cases
        case a
        with swx na sa a2 nm show ?thesis by simp
      next
        case as
        with eq2 have e: "?h2 ! x = h ! x" by blast
        then have "is_marked ?h2 (Some x) = is_marked h (Some x)"
          using x len2 by (simp add: is_marked_def deref_def)
        with swx as e show ?thesis by (auto split: if_splits)
      next
        case own
        from own2 [OF own(3)] obtain ob where
          "h ! x = Some ob" "?h2 ! x = Some (ob\<lparr> nextObject := nextObject obj \<rparr>)" by blast
        with swx own show ?thesis by auto
      next
        case other
        with swx same2 [OF x] show ?thesis by simp
      qed
    qed
    ultimately show ?thesis using r' c' by auto
  next
    case False
    then have m: "is_marked h (Some a)" using d by (simp add: is_marked_def)
    let ?h1 = "h[a := Some (obj\<lparr> marked := 0 \<rparr>)]"
    have st: "store h (Some a) (\<lambda>ob. ob\<lparr> marked := 0 \<rparr>) = Some ?h1"
      using d by (simp add: store_def)
    have len1: "length ?h1 = length h" by simp
    have r1: "read_slot vm ?h1 (NextObject_slot a) = Some (nextObject obj)"
      using al by (simp add: read_slot_def deref_def)
    have eq1: "\<forall>x\<in>set as. x < length h \<and> ?h1 ! x = h ! x"
    proof
      fix x assume xs: "x \<in> set as"
      then have xl: "x < length h" by (rule alloc)
      moreover from xs na have "x \<noteq> a" by blast
      ultimately show "x < length h \<and> ?h1 ! x = h ! x" by simp
    qed
    have c1: "chain ?h1 (nextObject obj) as"
      by (rule chain_same [OF len1 _ c]) (use eq1 in blast)
    have so1: "\<forall>b. NextObject_slot a = NextObject_slot b \<longrightarrow> b \<notin> set as" using na by simp
    from Cons.IH [OF r1 c1 dist so1] obtain vm' h' p' where
      sl: "sweep_loop vm ?h1 (NextObject_slot a) = Some (vm', h')"
      and r': "read_slot vm' h' (NextObject_slot a) = Some p'"
      and c': "chain h' p' (kept ?h1 as)" and sw: "swept ?h1 as (NextObject_slot a) h'"
      and vm': "vm' = slot_vm vm (NextObject_slot a) p'" by blast
    from vm' have vm'': "vm' = vm" by (simp add: slot_vm_def)
    have len': "length h' = length h" using sw by (simp add: swept_def)
    have swx: "\<And>x. x < length h \<Longrightarrow> if x \<in> set as
        then (if is_marked ?h1 (Some x)
              then (\<exists>obj n. ?h1 ! x = Some obj \<and> h' ! x = Some (obj\<lparr> marked := 0, nextObject := n \<rparr>))
              else h' ! x = None)
        else if x = a
        then (\<exists>ob n. ?h1 ! x = Some ob \<and> h' ! x = Some (ob\<lparr> nextObject := n \<rparr>))
        else h' ! x = ?h1 ! x"
    proof -
      fix x assume "x < length h"
      then have "x < length ?h1" by simp
      from sweptD [OF sw this] show "if x \<in> set as
        then (if is_marked ?h1 (Some x)
              then (\<exists>obj n. ?h1 ! x = Some obj \<and> h' ! x = Some (obj\<lparr> marked := 0, nextObject := n \<rparr>))
              else h' ! x = None)
        else if x = a
        then (\<exists>ob n. ?h1 ! x = Some ob \<and> h' ! x = Some (ob\<lparr> nextObject := n \<rparr>))
        else h' ! x = ?h1 ! x" by (auto split: if_splits)
    qed
    have other: "\<And>x. x < length h \<Longrightarrow> x \<noteq> a \<Longrightarrow> x \<notin> set as \<Longrightarrow> h' ! x = h ! x"
      using swx by force
    have "sweep_loop vm h s = Some (vm', h')"
      using Cons.prems(1) p d False st sl by (simp add: sweep_loop.simps [of vm h s])
    moreover have rs: "read_slot vm' h' s = Some (Some a)"
    proof (cases s)
      case FirstObject_slot
      with Cons.prems(1) p vm'' show ?thesis by (simp add: read_slot_def)
    next
      case (NextObject_slot b)
      with read_slot_owner Cons.prems(1) p obtain ob where
        b: "b < length h" "h ! b = Some ob" "nextObject ob = Some a" by blast
      from NextObject_slot Cons.prems(4) have "b \<noteq> a" "b \<notin> set as" by auto
      with other [OF b(1)] b len' NextObject_slot show ?thesis
        by (simp add: read_slot_def deref_def)
    qed
    moreover have "kept h (a # as) = a # kept ?h1 as"
      using m kept_cong [OF eq1 len1] by (simp add: kept_def)
    moreover have "chain h' (Some a) (a # kept ?h1 as)"
    proof -
      from read_slot_owner [OF r'] obtain ob where "a < length h'" "h' ! a = Some ob" "nextObject ob = p'"
        by blast
      with c' show ?thesis by (simp add: deref_def)
    qed
    moreover have "vm' = slot_vm vm s (Some a)"
      using vm'' Cons.prems(1) p by (cases s) (simp_all add: slot_vm_def read_slot_def)
    moreover have "swept h (a # as) s h'"
      unfolding swept_def
    proof (intro conjI allI impI)
      show "length h' = length h" by (rule len')
    next
      fix x assume x: "x < length h"
      consider (a) "x = a" | (as) "x \<in> set as" | (own) "x \<noteq> a" "x \<notin> set as" "s = NextObject_slot x"
        | (other) "x \<noteq> a" "x \<notin> set as" "s \<noteq> NextObject_slot x" by blast
      then show "if x \<in> set (a # as)
        then (if is_marked h (Some x)
              then (\<exists>obj n. h ! x = Some obj \<and> h' ! x = Some (obj\<lparr> marked := 0, nextObject := n \<rparr>))
              else h' ! x = None)
        else if s = NextObject_slot x
        then (\<exists>ob n. h ! x = Some ob \<and> h' ! x = Some (ob\<lparr> nextObject := n \<rparr>))
        else h' ! x = h ! x"
      proof cases
        case a
        with swx [OF x] na al m show ?thesis by auto
      next
        case as
        with eq1 have e: "?h1 ! x = h ! x" by blast
        then have "is_marked ?h1 (Some x) = is_marked h (Some x)"
          using x by (simp add: is_marked_def deref_def)
        with swx [OF x] as e show ?thesis by (auto split: if_splits)
      next
        case own
        with read_slot_owner Cons.prems(1) obtain ob where "h ! x = Some ob" by blast
        moreover have "h' ! x = h ! x" using other [OF x own(1,2)] .
        ultimately have "\<exists>ob n. h ! x = Some ob \<and> h' ! x = Some (ob\<lparr> nextObject := n \<rparr>)"
          by (simp add: self_next)
        with own show ?thesis by simp
      next
        case other
        with \<open>\<And>x. x < length h \<Longrightarrow> x \<noteq> a \<Longrightarrow> x \<notin> set as \<Longrightarrow> h' ! x = h ! x\<close> x show ?thesis by simp
      qed
    qed
    ultimately show ?thesis by auto
  qed
qed

lemma chain_unique: "chain h p as \<Longrightarrow> chain h p bs \<Longrightarrow> as = bs"
proof (induction as arbitrary: p bs)
  case Nil
  then show ?case by (cases bs) auto
next
  case (Cons a as)
  from Cons.prems(1) obtain obj where p: "p = Some a" and d: "deref h p = Some obj"
    and c: "chain h (nextObject obj) as" by (auto split: option.splits)
  from Cons.prems(2) p obtain bs' where bs: "bs = a # bs'" by (cases bs) auto
  with Cons.prems(2) d have "chain h (nextObject obj) bs'" by simp
  with Cons.IH [OF c] bs show ?case by simp
qed

lemma chain_suffix:
  "chain h p (xs @ a # ys) \<Longrightarrow> chain h (Some a) (a # ys)"
proof (induction xs arbitrary: p)
  case Nil
  then show ?case by auto
next
  case (Cons x xs)
  from Cons.prems obtain obj :: Object where "chain h (nextObject obj) (xs @ a # ys)"
    by (auto split: option.splits)
  then show ?case by (rule Cons.IH)
qed

lemma chain_distinct: "chain h p as \<Longrightarrow> distinct as"
proof (induction as arbitrary: p)
  case Nil
  then show ?case by simp
next
  case (Cons a as)
  from Cons.prems obtain obj where p: "p = Some a" and d: "deref h p = Some obj"
    and c: "chain h (nextObject obj) as" by (auto split: option.splits)
  have "a \<notin> set as"
  proof
    assume "a \<in> set as"
    then obtain xs ys where s: "as = xs @ a # ys" by (auto dest: split_list)
    with c have "chain h (Some a) (a # ys)" by (blast intro: chain_suffix)
    moreover from Cons.prems p have "chain h (Some a) (a # as)" by simp
    ultimately have "a # ys = a # as" by (rule chain_unique)
    with s show False by simp
  qed
  with Cons.IH [OF c] show ?case by simp
qed

section \<open>Well-formed states\<close>

lemma unmarked_self: "marked (obj :: Object) = 0 \<Longrightarrow> obj\<lparr> marked := 0 \<rparr> = obj"
  by simp

lemma sweep_loop_vm:
  "sweep_loop vm h s = Some (vm', h') \<Longrightarrow> vm' = vm\<lparr> firstObject := firstObject vm' \<rparr>"
proof (induction vm h s rule: sweep_loop.induct)
  case (1 vm h object)
  from "1.prems" obtain p where r: "read_slot vm h object = Some p"
    by (auto simp: sweep_loop.simps [of vm h object] split: option.splits)
  show ?case
  proof (cases p)
    case None
    with "1.prems" r show ?thesis by (simp add: sweep_loop.simps [of vm h object])
  next
    case (Some a)
    with "1.prems" r obtain obj where d: "deref h (Some a) = Some obj"
      by (auto simp: sweep_loop.simps [of vm h object] split: option.splits)
    show ?thesis
    proof (cases "marked obj = 0")
      case True
      with "1.prems" r Some d obtain vm1 h1 where
        w: "write_slot vm h object (nextObject obj) = Some (vm1, h1)"
        and sl: "sweep_loop vm1 (free h1 a) object = Some (vm', h')"
        by (auto simp: sweep_loop.simps [of vm h object] split: option.splits)
      from "1.IH"(1) [OF r Some d True w refl sl]
      have "vm' = vm1\<lparr> firstObject := firstObject vm' \<rparr>" .
      moreover from write_slot_SomeD [OF w] have "vm1 = vm \<or> vm1 = vm\<lparr> firstObject := nextObject obj \<rparr>"
        by auto
      ultimately show ?thesis by (metis VM.update_convs(5) VM.surjective)
    next
      case False
      with "1.prems" r Some d obtain h1 where
        st: "store h (Some a) (\<lambda>ob. ob\<lparr> marked := 0 \<rparr>) = Some h1"
        and sl: "sweep_loop vm h1 (NextObject_slot a) = Some (vm', h')"
        by (auto simp: sweep_loop.simps [of vm h object] split: option.splits)
      from "1.IH"(2) [OF r Some d False st sl] show ?thesis .
    qed
  qed
qed

lemma gc_vm:
  assumes "gc vm h = Some (vm', h')"
  shows "vm' = vm\<lparr> firstObject := firstObject vm', maxObjects := numObjects vm * 2 \<rparr>"
proof -
  from assms obtain h1 vm2 where s: "sweep vm h1 = Some (vm2, h')"
    and v: "vm' = vm2\<lparr> maxObjects := numObjects vm2 * 2 \<rparr>"
    by (auto simp: gc_def split: option.splits)
  from sweep_loop_vm [OF s [unfolded sweep_def]] have "vm2 = vm\<lparr> firstObject := firstObject vm2 \<rparr>" .
  then have "numObjects vm2 = numObjects vm" "vm2\<lparr> maxObjects := x \<rparr> = vm\<lparr> firstObject := firstObject vm2, maxObjects := x \<rparr>" for x
    by (metis VM.select_convs VM.surjective VM.update_convs)+
  with v show ?thesis by simp
qed

lemma vm_ok_reachable_registered:
  assumes "vm_ok vm h as" "a \<in> reachable vm h"
  shows "a \<in> set as"
proof -
  from assms(1) have "closed_set h (set as)" "roots vm \<subseteq> set as"
    by (auto simp: vm_ok_def roots_def addrs_of_def)
  with assms(2) show ?thesis unfolding reachable_def by (blast intro: closed_set_reach)
qed

lemma vm_ok_marking:
  assumes ok: "vm_ok vm h as"
  shows "\<exists>h1. markAll vm h = Some h1 \<and> marks_only h h1 \<and>
           (\<forall>a\<in>set as. is_marked h1 (Some a) \<longleftrightarrow> a \<in> reachable vm h) \<and>
           (\<forall>c<length h. c \<notin> set as \<longrightarrow> h1 ! c = h ! c)"
proof -
  from ok have sk: "stack_ok vm" and cs: "closed_set h (set as)"
    and rs: "set (live_stack vm) \<subseteq> Some ` set as"
    and un: "\<forall>a\<in>set as. \<not> is_marked h (Some a)" by (simp_all add: vm_ok_def)
  from mark_list_returns [OF cs rs] obtain h1 where ml: "mark_list h (live_stack vm) = Some h1"
    by blast
  then have ma: "markAll vm h = Some h1" using sk by (simp add: markAll_mark_list)
  have mo: "marks_only h h1" by (rule mark_list_marks_only [OF ml])
  have sub: "\<And>a. a \<in> reachable vm h \<Longrightarrow> a \<in> set as"
    by (rule vm_ok_reachable_registered [OF ok])
  have un_r: "\<forall>a\<in>reach h (addrs_of (live_stack vm)). \<not> is_marked h (Some a)"
    using sub un by (auto simp: reachable_def roots_def)
  have new: "\<And>x. is_marked h1 (Some x) \<Longrightarrow> \<not> is_marked h (Some x) \<Longrightarrow> x \<in> reachable vm h"
    unfolding reachable_def roots_def by (rule mark_list_new_reach [OF ml])
  have iff: "\<forall>a\<in>set as. is_marked h1 (Some a) \<longleftrightarrow> a \<in> reachable vm h"
  proof (intro ballI iffI)
    fix a assume "a \<in> set as" "is_marked h1 (Some a)"
    with un show "a \<in> reachable vm h" by (blast intro: new)
  next
    fix a assume "a \<in> reachable vm h"
    then show "is_marked h1 (Some a)"
      unfolding reachable_def roots_def by (rule mark_list_reach_marked [OF ml un_r])
  qed
  have fr: "\<forall>c<length h. c \<notin> set as \<longrightarrow> h1 ! c = h ! c"
  proof (intro allI impI)
    fix c assume c: "c < length h" "c \<notin> set as"
    show "h1 ! c = h ! c"
    proof (rule ccontr)
      assume ne: "h1 ! c \<noteq> h ! c"
      with mo c obtain obj where "h ! c = Some obj" "marked obj = 0"
        "h1 ! c = Some (obj\<lparr> marked := 1 \<rparr>)" by (auto simp: marks_only_def)
      with c mo have "is_marked h1 (Some c)" "\<not> is_marked h (Some c)"
        by (simp_all add: is_marked_def deref_def marks_only_def)
      then have "c \<in> reachable vm h" by (rule new)
      with sub c show False by blast
    qed
  qed
  from ma mo iff fr show ?thesis by blast
qed

lemma gc_effect:
  assumes ok: "vm_ok vm h as"
  shows "\<exists>vm' h'. gc vm h = Some (vm', h') \<and>
           vm' = vm\<lparr> firstObject := firstObject vm', maxObjects := numObjects vm * 2 \<rparr> \<and>
           chain h' (firstObject vm') (filter (\<lambda>a. a \<in> reachable vm h) as) \<and>
           length h' = length h \<and>
           (\<forall>a\<in>set as. if a \<in> reachable vm h
                        then (\<exists>obj n. h ! a = Some obj \<and> h' ! a = Some (obj\<lparr> nextObject := n \<rparr>))
                        else h' ! a = None) \<and>
           (\<forall>c<length h. c \<notin> set as \<longrightarrow> h' ! c = h ! c)"
proof -
  from vm_ok_marking [OF ok] obtain h1 where ma: "markAll vm h = Some h1"
    and mo: "marks_only h h1"
    and iff: "\<forall>a\<in>set as. is_marked h1 (Some a) \<longleftrightarrow> a \<in> reachable vm h"
    and fr: "\<forall>c<length h. c \<notin> set as \<longrightarrow> h1 ! c = h ! c" by blast
  from ok have ch: "chain h (firstObject vm) as"
    and un: "\<forall>a\<in>set as. \<not> is_marked h (Some a)" by (simp_all add: vm_ok_def)
  have ch1: "chain h1 (firstObject vm) as" by (rule chain_marks_only [OF mo ch])
  have len1: "length h1 = length h" using mo by (simp add: marks_only_def)
  have rd: "read_slot vm h1 FirstObject_slot = Some (firstObject vm)" by (simp add: read_slot_def)
  from sweep_loop_chain [OF rd ch1 chain_distinct [OF ch1]] obtain vm2 h2 p' where
    sl: "sweep_loop vm h1 FirstObject_slot = Some (vm2, h2)"
    and c2: "chain h2 p' (kept h1 as)" and sw: "swept h1 as FirstObject_slot h2"
    and vm2: "vm2 = slot_vm vm FirstObject_slot p'" by auto
  from vm2 have vm2': "vm2 = vm\<lparr> firstObject := p' \<rparr>" by (simp add: slot_vm_def)
  have g: "gc vm h = Some (vm2\<lparr> maxObjects := numObjects vm2 * 2 \<rparr>, h2)"
    using ma sl by (simp add: gc_def sweep_def)
  let ?vm' = "vm2\<lparr> maxObjects := numObjects vm2 * 2 \<rparr>"
  have k: "kept h1 as = filter (\<lambda>a. a \<in> reachable vm h) as"
    unfolding kept_def using iff by (intro filter_cong) auto
  have alloc: "\<And>a. a \<in> set as \<Longrightarrow> \<exists>obj. a < length h \<and> h ! a = Some obj"
    by (rule chain_allocated [OF ch])
  have cells: "\<forall>a\<in>set as. if a \<in> reachable vm h
                        then (\<exists>obj n. h ! a = Some obj \<and> h2 ! a = Some (obj\<lparr> nextObject := n \<rparr>))
                        else h2 ! a = None"
  proof
    fix a assume a: "a \<in> set as"
    from alloc [OF a] obtain obj where al: "a < length h" "h ! a = Some obj" by blast
    from un a have "\<not> is_marked h (Some a)" by blast
    with al have m0: "marked obj = 0" by (simp add: is_marked_def deref_def)
    from al len1 have al1: "a < length h1" by simp
    note s = sweptD [OF sw al1]
    show "if a \<in> reachable vm h
                        then (\<exists>obj n. h ! a = Some obj \<and> h2 ! a = Some (obj\<lparr> nextObject := n \<rparr>))
                        else h2 ! a = None"
    proof (cases "a \<in> reachable vm h")
      case True
      with iff a have "is_marked h1 (Some a)" by blast
      with s a obtain obj1 n where o1: "h1 ! a = Some obj1"
        "h2 ! a = Some (obj1\<lparr> marked := 0, nextObject := n \<rparr>)" by auto
      from mo al have "h1 ! a = Some obj \<or> h1 ! a = Some (obj\<lparr> marked := 1 \<rparr>)"
        by (auto simp: marks_only_def)
      with o1 m0 have "obj1\<lparr> marked := 0 \<rparr> = obj" by auto
      then have "obj1\<lparr> marked := 0, nextObject := n \<rparr> = obj\<lparr> nextObject := n \<rparr>" by simp
      with o1 al True show ?thesis by auto
    next
      case False
      with iff a have "\<not> is_marked h1 (Some a)" by blast
      with s a False show ?thesis by simp
    qed
  qed
  have frame: "\<forall>c<length h. c \<notin> set as \<longrightarrow> h2 ! c = h ! c"
  proof (intro allI impI)
    fix c assume c: "c < length h" "c \<notin> set as"
    with len1 have "c < length h1" by simp
    from sweptD [OF sw this] c have "h2 ! c = h1 ! c" by simp
    with fr c show "h2 ! c = h ! c" by simp
  qed
  have "?vm' = vm\<lparr> firstObject := firstObject ?vm', maxObjects := numObjects vm * 2 \<rparr>"
    using vm2' by simp
  moreover have "chain h2 (firstObject ?vm') (filter (\<lambda>a. a \<in> reachable vm h) as)"
    using c2 k vm2' by simp
  moreover have "length h2 = length h" using sw len1 by (simp add: swept_def)
  ultimately show ?thesis using g cells frame by blast
qed

section \<open>An example state with sharing and a cycle\<close>

lemma example_live_stack: "live_stack example_vm = [Some 2, Some 1]"
  by (simp add: live_stack_def example_vm_def numeral_2_eq_2)

lemma example_roots: "roots example_vm = {1, 2}"
  by (auto simp: roots_def addrs_of_def example_live_stack)

lemma example_vm_ok: "vm_ok example_vm example_heap [4, 3, 2, 1, 0]"
  unfolding vm_ok_def
proof (intro conjI)
  show "stack_ok example_vm" by (simp add: stack_ok_def example_vm_def)
  show "chain example_heap (firstObject example_vm) [4, 3, 2, 1, 0]"
    by (simp add: example_vm_def example_heap_def deref_def)
  show "closed_set example_heap (set [4, 3, 2, 1, 0])"
    by (simp add: closed_set_def example_heap_def deref_def)
  show "set (live_stack example_vm) \<subseteq> Some ` set [4, 3, 2, 1, 0]"
    by (simp add: example_live_stack)
  show "\<forall>a\<in>set [4, 3, 2, 1, 0]. \<not> is_marked example_heap (Some a)"
    by (simp add: is_marked_def example_heap_def deref_def)
qed

lemma example_reachable_0: "0 \<in> reachable example_vm example_heap"
proof -
  have "2 \<in> reach example_heap (roots example_vm)"
    by (rule reach.root) (simp add: example_roots)
  moreover have "deref example_heap (Some 2) =
      Some \<lparr> objectType = PAIR_TYPE, marked = 0, nextObject = Some 1, intValue = 0,
             head = Some 1, tail = Some 0 \<rparr>"
    by (simp add: example_heap_def deref_def)
  ultimately have "0 \<in> reach example_heap (roots example_vm)"
    by (rule reach.via_tail) simp_all
  then show ?thesis by (simp add: reachable_def)
qed

lemma example_reachable: "reachable example_vm example_heap \<subseteq> {0, 1, 2}"
proof
  fix x assume "x \<in> reachable example_vm example_heap"
  then have "x \<in> reach example_heap {1, 2}" by (simp add: reachable_def example_roots)
  then show "x \<in> {0, 1, 2}"
    by (induction rule: reach.induct)
       (auto simp: example_heap_def deref_def nth_Cons split: if_splits nat.splits)
qed

lemma example_unreachable_4: "4 \<notin> reachable example_vm example_heap"
  using example_reachable by auto

section \<open>Reachability soundness\<close>

text \<open>
  C1. In a well-formed state, a collection returns, and every object reachable from a
  stack entry through zero or more head/tail steps is afterwards still an element of the
  registry chain and still allocated; apart from its registry link it is unchanged.
\<close>

theorem gc_keeps_reachable:
  assumes "vm_ok vm h as" and "a \<in> reachable vm h"
  shows "\<exists>vm' h' as' obj n. gc vm h = Some (vm', h') \<and> chain h' (firstObject vm') as' \<and>
           a \<in> set as' \<and> deref h (Some a) = Some obj \<and>
           deref h' (Some a) = Some (obj\<lparr> nextObject := n \<rparr>)"
proof -
  from gc_effect [OF assms(1)] obtain vm' h' where g: "gc vm h = Some (vm', h')"
    and c: "chain h' (firstObject vm') (filter (\<lambda>a. a \<in> reachable vm h) as)"
    and len: "length h' = length h"
    and cells: "\<forall>a\<in>set as. if a \<in> reachable vm h
                        then (\<exists>obj n. h ! a = Some obj \<and> h' ! a = Some (obj\<lparr> nextObject := n \<rparr>))
                        else h' ! a = None" by blast
  have a: "a \<in> set as" by (rule vm_ok_reachable_registered [OF assms])
  with assms(1) have al: "a < length h"
    using chain_allocated [of h "firstObject vm" as a] by (auto simp: vm_ok_def)
  from cells a have "if a \<in> reachable vm h
      then (\<exists>obj n. h ! a = Some obj \<and> h' ! a = Some (obj\<lparr> nextObject := n \<rparr>))
      else h' ! a = None" by blast
  with assms(2) obtain obj n where
    "h ! a = Some obj" "h' ! a = Some (obj\<lparr> nextObject := n \<rparr>)" by auto
  with al len have "deref h (Some a) = Some obj"
    "deref h' (Some a) = Some (obj\<lparr> nextObject := n \<rparr>)" by (simp_all add: deref_def)
  moreover from a assms(2) have "a \<in> set (filter (\<lambda>a. a \<in> reachable vm h) as)" by simp
  ultimately show ?thesis using g c by blast
qed

theorem gc_keeps_reachable_witness:
  "vm_ok example_vm example_heap [4, 3, 2, 1, 0] \<and> 0 \<in> reachable example_vm example_heap \<and>
   (\<exists>vm' h' as' obj n. gc example_vm example_heap = Some (vm', h') \<and>
      chain h' (firstObject vm') as' \<and> 0 \<in> set as' \<and>
      deref example_heap (Some 0) = Some obj \<and>
      deref h' (Some 0) = Some (obj\<lparr> nextObject := n \<rparr>))"
  using gc_keeps_reachable [OF example_vm_ok example_reachable_0]
    example_vm_ok example_reachable_0 by simp

lemma example_gc:
  "gc example_vm example_heap = Some (example_vm\<lparr> firstObject := Some 2, maxObjects := 10 \<rparr>,
     [Some \<lparr> objectType = INT_TYPE, marked = 0, nextObject = None, intValue = 7,
             head = None, tail = None \<rparr>,
      Some \<lparr> objectType = PAIR_TYPE, marked = 0, nextObject = Some 0, intValue = 0,
             head = Some 0, tail = Some 1 \<rparr>,
      Some \<lparr> objectType = PAIR_TYPE, marked = 0, nextObject = Some 1, intValue = 0,
             head = Some 1, tail = Some 0 \<rparr>,
      None, None])"
  by code_simp

section \<open>Termination of marking and collection of cycles\<close>

lemma example_closed: "closed_set example_heap {0, 1, 2, 3, 4}"
  by (simp add: closed_set_def example_heap_def deref_def)

text \<open>
  C8. \<open>mark\<close> is a total function: its recursion is justified by the number of unmarked
  objects, which every call past the check of the mark bit decreases, whatever the shape
  of the graph. A visit of a marked object returns the heap as it is. On a graph whose
  pair fields point to allocated objects (cycles and sharing included) it returns without
  a fault, having changed mark bits only, and so does \<open>markAll\<close> in a well-formed state.
  The sweep that follows unlinks and releases every registered object that no stack entry
  reaches, cyclic or not.
\<close>

theorem mark_terminates_and_garbage_cycles_collected:
  "(is_marked k q \<longrightarrow> mark k q = Some k) \<and>
   (closed_set h S \<longrightarrow> p \<in> Some ` S \<longrightarrow>
      (\<exists>h1. mark h p = Some h1 \<and> marks_only h h1 \<and> is_marked h1 p)) \<and>
   (vm_ok vm g as \<longrightarrow>
      (\<exists>g1 vm' g' as'. markAll vm g = Some g1 \<and> gc vm g = Some (vm', g') \<and>
         chain g' (firstObject vm') as' \<and>
         (\<forall>a\<in>set as. a \<notin> reachable vm g \<longrightarrow> a \<notin> set as' \<and> deref g' (Some a) = None)))"
proof (intro conjI impI)
  assume "is_marked k q"
  then show "mark k q = Some k"
    by (auto simp: is_marked_def mark.simps [of k q] split: option.splits)
next
  assume "closed_set h S" "p \<in> Some ` S"
  from mark_returns [OF this] obtain h1 where m: "mark h p = Some h1" by blast
  with mark_marks_only [OF m] mark_is_marked [OF m]
  show "\<exists>h1. mark h p = Some h1 \<and> marks_only h h1 \<and> is_marked h1 p" by blast
next
  assume ok: "vm_ok vm g as"
  from vm_ok_marking [OF ok] obtain g1 where ma: "markAll vm g = Some g1" by blast
  from gc_effect [OF ok] obtain vm' g' where gc: "gc vm g = Some (vm', g')"
    and c: "chain g' (firstObject vm') (filter (\<lambda>a. a \<in> reachable vm g) as)"
    and len: "length g' = length g"
    and cells: "\<forall>a\<in>set as. if a \<in> reachable vm g
                        then (\<exists>obj n. g ! a = Some obj \<and> g' ! a = Some (obj\<lparr> nextObject := n \<rparr>))
                        else g' ! a = None" by blast
  have "\<forall>a\<in>set as. a \<notin> reachable vm g \<longrightarrow>
          a \<notin> set (filter (\<lambda>a. a \<in> reachable vm g) as) \<and> deref g' (Some a) = None"
  proof (intro ballI impI)
    fix a assume a: "a \<in> set as" "a \<notin> reachable vm g"
    with cells have "g' ! a = None" by auto
    then have "deref g' (Some a) = None" by (simp add: deref_def)
    with a show "a \<notin> set (filter (\<lambda>a. a \<in> reachable vm g) as) \<and> deref g' (Some a) = None"
      by simp
  qed
  with ma gc c
  show "\<exists>g1 vm' g' as'. markAll vm g = Some g1 \<and> gc vm g = Some (vm', g') \<and>
         chain g' (firstObject vm') as' \<and>
         (\<forall>a\<in>set as. a \<notin> reachable vm g \<longrightarrow> a \<notin> set as' \<and> deref g' (Some a) = None)"
    by blast
qed

theorem mark_terminates_and_garbage_cycles_collected_witness:
  "is_marked marked_heap (Some 0) \<and> mark marked_heap (Some 0) = Some marked_heap \<and>
   closed_set example_heap {0, 1, 2, 3, 4} \<and> Some 4 \<in> Some ` {0, 1, 2, 3, 4} \<and>
   (\<exists>h1. mark example_heap (Some 4) = Some h1 \<and> marks_only example_heap h1 \<and>
      is_marked h1 (Some 4)) \<and>
   vm_ok example_vm example_heap [4, 3, 2, 1, 0] \<and>
   4 \<in> set [4, 3, 2, 1, 0] \<and> 4 \<notin> reachable example_vm example_heap \<and>
   (\<exists>g1 vm' g' as'. markAll example_vm example_heap = Some g1 \<and>
      gc example_vm example_heap = Some (vm', g') \<and> chain g' (firstObject vm') as' \<and>
      4 \<notin> set as' \<and> deref g' (Some 4) = None)"
proof -
  note t = mark_terminates_and_garbage_cycles_collected
    [of marked_heap "Some 0" example_heap "{0, 1, 2, 3, 4}" "Some 4" example_vm example_heap
      "[4, 3, 2, 1, 0]"]
  have mk: "is_marked marked_heap (Some 0)"
    by (simp add: is_marked_def marked_heap_def deref_def)
  with t have mm: "mark marked_heap (Some 0) = Some marked_heap" by blast
  have m: "Some (4::nat) \<in> Some ` {0, 1, 2, 3, 4}" by simp
  from t example_closed m have
    "\<exists>h1. mark example_heap (Some 4) = Some h1 \<and> marks_only example_heap h1 \<and>
      is_marked h1 (Some 4)" by blast
  moreover from t example_vm_ok obtain g1 vm' g' as' where
    "markAll example_vm example_heap = Some g1" "gc example_vm example_heap = Some (vm', g')"
    "chain g' (firstObject vm') as'"
    "\<forall>a\<in>set [4, 3, 2, 1, 0]. a \<notin> reachable example_vm example_heap \<longrightarrow>
        a \<notin> set as' \<and> deref g' (Some a) = None" by blast
  moreover from this(4) example_unreachable_4 have "4 \<notin> set as' \<and> deref g' (Some 4) = None"
    by simp
  ultimately show ?thesis using example_closed example_vm_ok example_unreachable_4 m mk mm
    by auto
qed

section \<open>Mark bits outside a collection\<close>

lemma markAll_loop_marks_only: "markAll_loop vm i h = Some h' \<Longrightarrow> marks_only h h'"
proof (induction vm i h rule: markAll_loop.induct)
  case (1 vm i h)
  show ?case
  proof (cases "i <s stackSize vm")
    case True
    with "1.prems" obtain h1 where ib: "in_bounds vm i"
      and m: "mark h (stack vm ! nat (sint i)) = Some h1"
      and l: "markAll_loop vm (i + 1) h1 = Some h'"
      by (auto simp: markAll_loop.simps [of vm i h] split: if_splits option.splits)
    from mark_marks_only [OF m] "1.IH" [OF True ib m l] show ?thesis by (rule marks_only_trans)
  next
    case False
    with "1.prems" show ?thesis by (simp add: markAll_loop.simps [of vm i h] marks_only_refl)
  qed
qed

lemma gc_registry_unmarked:
  assumes ch: "chain h (firstObject vm) as" and g: "gc vm h = Some (vm', h')"
  shows "registry_unmarked vm' h'"
proof -
  from g obtain h1 vm2 where ma: "markAll vm h = Some h1" and sw: "sweep vm h1 = Some (vm2, h')"
    and v: "vm' = vm2\<lparr> maxObjects := numObjects vm2 * 2 \<rparr>"
    by (auto simp: gc_def split: option.splits)
  have mo: "marks_only h h1" using ma unfolding markAll_def by (rule markAll_loop_marks_only)
  have ch1: "chain h1 (firstObject vm) as" by (rule chain_marks_only [OF mo ch])
  have rd: "read_slot vm h1 FirstObject_slot = Some (firstObject vm)" by (simp add: read_slot_def)
  from sweep_loop_chain [OF rd ch1 chain_distinct [OF ch1]] sw obtain p' where
    c2: "chain h' p' (kept h1 as)" and s: "swept h1 as FirstObject_slot h'"
    and vm2: "vm2 = slot_vm vm FirstObject_slot p'" by (auto simp: sweep_def)
  have "\<forall>a\<in>set (kept h1 as). \<not> is_marked h' (Some a)"
  proof
    fix a assume "a \<in> set (kept h1 as)"
    then have a: "a \<in> set as" "is_marked h1 (Some a)" by (simp_all add: kept_def)
    from chain_allocated [OF ch1 a(1)] have al: "a < length h1" by blast
    from sweptD [OF s al] a obtain obj n where
      "h' ! a = Some (obj\<lparr> marked := 0, nextObject := n \<rparr>)" by auto
    then show "\<not> is_marked h' (Some a)" by (simp add: is_marked_def deref_def)
  qed
  moreover have "firstObject vm' = p'" using v vm2 by (simp add: slot_vm_def)
  ultimately show ?thesis using c2 unfolding registry_unmarked_def by blast
qed

lemma chain_grow: "chain h p as \<Longrightarrow> chain (h @ xs) p as"
proof (induction as arbitrary: p)
  case Nil
  then show ?case by simp
next
  case (Cons a as)
  from Cons.prems obtain obj where p: "p = Some a" and d: "deref h p = Some obj"
    and c: "chain h (nextObject obj) as" by (auto split: option.splits)
  from deref_SomeD [OF d] p have "a < length h" "h ! a = Some obj" by auto
  then have "deref (h @ xs) p = Some obj" using p by (simp add: deref_def nth_append)
  with p Cons.IH [OF c] show ?case by simp
qed

lemma is_marked_grow: "a < length h \<Longrightarrow> is_marked (h @ xs) (Some a) = is_marked h (Some a)"
  by (simp add: is_marked_def deref_def nth_append)

lemma newObject_SomeD:
  assumes "newObject t vm h = Some (p, vm', h')"
  shows "\<exists>vm1 h1. (if numObjects vm = maxObjects vm then gc vm h else Some (vm, h)) = Some (vm1, h1) \<and>
           p = Some (length h1) \<and>
           h' = h1 @ [Some \<lparr> objectType = t, marked = 0, nextObject = firstObject vm1,
                               intValue = 0, head = None, tail = None \<rparr>] \<and>
           vm' = vm1\<lparr> firstObject := Some (length h1), numObjects := numObjects vm1 + 1 \<rparr>"
  using assms by (auto simp: newObject_def Let_def split: option.splits)

lemma newObject_registry_unmarked:
  assumes r: "registry_unmarked vm h" and n: "newObject t vm h = Some (p, vm', h')"
  shows "registry_unmarked vm' h' \<and> (\<exists>obj. deref h' p = Some obj \<and> marked obj = 0 \<and> objectType obj = t)"
proof -
  from newObject_SomeD [OF n] obtain vm1 h1 where
    g: "(if numObjects vm = maxObjects vm then gc vm h else Some (vm, h)) = Some (vm1, h1)"
    and p: "p = Some (length h1)"
    and h': "h' = h1 @ [Some \<lparr> objectType = t, marked = 0, nextObject = firstObject vm1,
                               intValue = 0, head = None, tail = None \<rparr>]"
    and vm': "vm' = vm1\<lparr> firstObject := Some (length h1), numObjects := numObjects vm1 + 1 \<rparr>"
    by blast
  have "registry_unmarked vm1 h1"
  proof (cases "numObjects vm = maxObjects vm")
    case True
    with g have "gc vm h = Some (vm1, h1)" by simp
    with r show ?thesis unfolding registry_unmarked_def [of vm h] by (blast intro: gc_registry_unmarked)
  next
    case False
    with g r show ?thesis by simp
  qed
  then obtain as where c: "chain h1 (firstObject vm1) as"
    and un: "\<forall>a\<in>set as. \<not> is_marked h1 (Some a)" unfolding registry_unmarked_def by blast
  have d: "deref h' p = Some \<lparr> objectType = t, marked = 0, nextObject = firstObject vm1,
                               intValue = 0, head = None, tail = None \<rparr>"
    using p h' by (simp add: deref_def)
  have "chain h' (firstObject vm') (length h1 # as)"
    using chain_grow [OF c] d p h' vm' by simp
  moreover have "\<forall>a\<in>set (length h1 # as). \<not> is_marked h' (Some a)"
  proof
    fix a assume "a \<in> set (length h1 # as)"
    then have "a = length h1 \<or> a \<in> set as" by simp
    then show "\<not> is_marked h' (Some a)"
    proof
      assume "a = length h1"
      with d p show ?thesis by (simp add: is_marked_def)
    next
      assume a: "a \<in> set as"
      with chain_allocated [OF c] have "a < length h1" by blast
      with un a h' show ?thesis by (simp add: is_marked_grow)
    qed
  qed
  ultimately have "registry_unmarked vm' h'" unfolding registry_unmarked_def by blast
  with d show ?thesis by simp
qed

lemma store_registry_unmarked:
  assumes s: "store h p f = Some h'"
    and f: "\<And>ob. nextObject (f ob) = nextObject ob \<and> marked (f ob) = marked ob"
    and r: "registry_unmarked vm h"
  shows "registry_unmarked vm h'"
proof -
  from store_SomeD [OF s] obtain b ob where b: "p = Some b" "b < length h" "h ! b = Some ob"
    "h' = h[b := Some (f ob)]" by blast
  from r obtain as where c: "chain h (firstObject vm) as"
    and un: "\<forall>a\<in>set as. \<not> is_marked h (Some a)" unfolding registry_unmarked_def by blast
  have len: "length h' = length h" using b by simp
  have "chain h' (firstObject vm) as"
  proof (rule chain_frame [OF len _ c])
    show "\<forall>x\<in>set as. \<exists>obj obj'. h ! x = Some obj \<and> h' ! x = Some obj' \<and> nextObject obj' = nextObject obj"
    proof
      fix x assume "x \<in> set as"
      from chain_allocated [OF c this] obtain obj where x: "x < length h" "h ! x = Some obj" by blast
      show "\<exists>obj obj'. h ! x = Some obj \<and> h' ! x = Some obj' \<and> nextObject obj' = nextObject obj"
        using x b f by (cases "x = b") simp_all
    qed
  qed
  moreover have "is_marked h' (Some a) = is_marked h (Some a)" for a
    using b f by (cases "a = b") (simp_all add: is_marked_def deref_def)
  ultimately show ?thesis using un unfolding registry_unmarked_def by auto
qed

lemma push_ReturnD:
  "push v vm h = Return u vm' h' \<Longrightarrow>
     h' = h \<and> vm' = vm\<lparr> stack := (stack vm)[nat (sint (stackSize vm)) := v],
                         stackSize := stackSize vm + 1 \<rparr>"
  by (auto simp: push_def split: if_splits)

lemma pop_ReturnD:
  "pop vm h = Return p vm' h' \<Longrightarrow>
     h' = h \<and> vm' = vm\<lparr> stackSize := stackSize vm - 1 \<rparr> \<and> 0 <s stackSize vm \<and>
     in_bounds vm' (stackSize vm') \<and> p = stack vm ! nat (sint (stackSize vm - 1))"
  by (auto simp: pop_def Let_def split: if_splits)

lemma registry_unmarked_stack:
  "registry_unmarked (vm\<lparr> stack := s \<rparr>) h = registry_unmarked vm h"
  "registry_unmarked (vm\<lparr> stackSize := n \<rparr>) h = registry_unmarked vm h"
  by (simp_all add: registry_unmarked_def)

lemma pushInt_registry_unmarked:
  assumes r: "registry_unmarked vm h" and p: "pushInt v vm h = Return u vm' h'"
  shows "registry_unmarked vm' h'"
proof -
  from p obtain object vm1 h1 h2 where n: "newObject INT_TYPE vm h = Some (object, vm1, h1)"
    and s: "store h1 object (\<lambda>ob. ob\<lparr> intValue := v \<rparr>) = Some h2"
    and pu: "push object vm1 h2 = Return u vm' h'"
    by (auto simp: pushInt_def split: option.splits)
  from newObject_registry_unmarked [OF r n] have "registry_unmarked vm1 h1" by blast
  with s have "registry_unmarked vm1 h2" by (intro store_registry_unmarked [OF s]) simp_all
  with push_ReturnD [OF pu] show ?thesis by (simp add: registry_unmarked_stack)
qed

lemma pushPair_registry_unmarked:
  assumes r: "registry_unmarked vm h" and p: "pushPair vm h = Return q vm' h'"
  shows "registry_unmarked vm' h'"
proof -
  from p obtain object vm1 h1 tl_p vm2 h2 h3 hd_p vm3 h4 h5 u where
    n: "newObject PAIR_TYPE vm h = Some (object, vm1, h1)"
    and p1: "pop vm1 h1 = Return tl_p vm2 h2"
    and s1: "store h2 object (\<lambda>ob. ob\<lparr> tail := tl_p \<rparr>) = Some h3"
    and p2: "pop vm2 h3 = Return hd_p vm3 h4"
    and s2: "store h4 object (\<lambda>ob. ob\<lparr> head := hd_p \<rparr>) = Some h5"
    and pu: "push object vm3 h5 = Return u vm' h'"
    by (auto simp: pushPair_def split: option.splits outcome.splits)
  from newObject_registry_unmarked [OF r n] have "registry_unmarked vm1 h1" by blast
  with pop_ReturnD [OF p1] have "registry_unmarked vm2 h2" by (simp add: registry_unmarked_stack)
  then have "registry_unmarked vm2 h3" by (intro store_registry_unmarked [OF s1]) simp_all
  with pop_ReturnD [OF p2] have "registry_unmarked vm3 h4" by (simp add: registry_unmarked_stack)
  then have "registry_unmarked vm3 h5" by (intro store_registry_unmarked [OF s2]) simp_all
  with push_ReturnD [OF pu] show ?thesis by (simp add: registry_unmarked_stack)
qed

lemma returnedD: "returned r \<Longrightarrow> \<exists>x vm h. r = Return x vm h"
  by (cases r) simp_all

lemma example_registry_unmarked: "registry_unmarked example_vm example_heap"
  using example_vm_ok unfolding registry_unmarked_def vm_ok_def by blast

text \<open>
  C10. A new object is created with its mark bit clear, and each operation of the
  interface that starts in a state whose registered objects are all unmarked and returns,
  returns in such a state: allocation (with or without the collection it may trigger),
  \<open>pushInt\<close>, \<open>pushPair\<close>, \<open>pop\<close> and a forced \<open>gc\<close>.
\<close>

theorem marks_clear_outside_collection:
  assumes "registry_unmarked vm h"
  shows "(\<forall>t p vm' h'. newObject t vm h = Some (p, vm', h') \<longrightarrow>
            registry_unmarked vm' h' \<and> (\<exists>obj. deref h' p = Some obj \<and> marked obj = 0)) \<and>
         (\<forall>v u vm' h'. pushInt v vm h = Return u vm' h' \<longrightarrow> registry_unmarked vm' h') \<and>
         (\<forall>q vm' h'. pushPair vm h = Return q vm' h' \<longrightarrow> registry_unmarked vm' h') \<and>
         (\<forall>q vm' h'. pop vm h = Return q vm' h' \<longrightarrow> registry_unmarked vm' h') \<and>
         (\<forall>vm' h'. gc vm h = Some (vm', h') \<longrightarrow> registry_unmarked vm' h')"
proof (intro conjI allI impI)
  fix t p vm' h' assume n: "newObject t vm h = Some (p, vm', h')"
  from newObject_registry_unmarked [OF assms n]
  show "registry_unmarked vm' h'" and "\<exists>obj. deref h' p = Some obj \<and> marked obj = 0"
    by blast+
next
  fix v u vm' h' assume "pushInt v vm h = Return u vm' h'"
  with assms show "registry_unmarked vm' h'" by (rule pushInt_registry_unmarked)
next
  fix q vm' h' assume "pushPair vm h = Return q vm' h'"
  with assms show "registry_unmarked vm' h'" by (rule pushPair_registry_unmarked)
next
  fix q vm' h' assume "pop vm h = Return q vm' h'"
  from pop_ReturnD [OF this] assms show "registry_unmarked vm' h'"
    by (simp add: registry_unmarked_stack)
next
  fix vm' h' assume g: "gc vm h = Some (vm', h')"
  from assms obtain as where "chain h (firstObject vm) as" unfolding registry_unmarked_def by blast
  then show "registry_unmarked vm' h'" using g by (rule gc_registry_unmarked)
qed

theorem marks_clear_outside_collection_witness:
  "registry_unmarked example_vm example_heap \<and>
   (\<exists>p vm' h'. newObject PAIR_TYPE example_vm example_heap = Some (p, vm', h') \<and>
      registry_unmarked vm' h' \<and> (\<exists>obj. deref h' p = Some obj \<and> marked obj = 0)) \<and>
   (\<exists>u vm' h'. pushInt 5 example_vm example_heap = Return u vm' h' \<and> registry_unmarked vm' h') \<and>
   (\<exists>q vm' h'. pushPair example_vm example_heap = Return q vm' h' \<and> registry_unmarked vm' h') \<and>
   (\<exists>q vm' h'. pop example_vm example_heap = Return q vm' h' \<and> registry_unmarked vm' h') \<and>
   (\<exists>vm' h'. gc example_vm example_heap = Some (vm', h') \<and> registry_unmarked vm' h')"
proof -
  note t = marks_clear_outside_collection [OF example_registry_unmarked]
  have "newObject PAIR_TYPE example_vm example_heap \<noteq> None" by code_simp
  then obtain p vm1 h1 where "newObject PAIR_TYPE example_vm example_heap = Some (p, vm1, h1)"
    by auto
  with t have c1: "\<exists>p vm' h'. newObject PAIR_TYPE example_vm example_heap = Some (p, vm', h') \<and>
      registry_unmarked vm' h' \<and> (\<exists>obj. deref h' p = Some obj \<and> marked obj = 0)" by blast
  have "returned (pushInt 5 example_vm example_heap)" by code_simp
  from returnedD [OF this] t
  have c2: "\<exists>u vm' h'. pushInt 5 example_vm example_heap = Return u vm' h' \<and>
      registry_unmarked vm' h'" by blast
  have "returned (pushPair example_vm example_heap)" by code_simp
  from returnedD [OF this] t
  have c3: "\<exists>q vm' h'. pushPair example_vm example_heap = Return q vm' h' \<and>
      registry_unmarked vm' h'" by blast
  have "returned (pop example_vm example_heap)" by code_simp
  from returnedD [OF this] t
  have c4: "\<exists>q vm' h'. pop example_vm example_heap = Return q vm' h' \<and>
      registry_unmarked vm' h'" by blast
  from example_gc t
  have c5: "\<exists>vm' h'. gc example_vm example_heap = Some (vm', h') \<and> registry_unmarked vm' h'"
    by blast
  from example_registry_unmarked c1 c2 c3 c4 c5 show ?thesis by blast
qed

section \<open>Building a pair\<close>

lemma pop_Return:
  assumes "0 < sint (stackSize vm)" "sint (stackSize vm) \<le> 256" "length (stack vm) = 256"
  shows "pop vm h = Return (stack vm ! nat (sint (stackSize vm) - 1))
                      (vm\<lparr> stackSize := stackSize vm - 1 \<rparr>) h"
    and "sint (stackSize vm - 1) = sint (stackSize vm) - 1"
proof -
  from assms(1) have pos: "0 <s stackSize vm" by (simp add: word_sless_alt)
  show s: "sint (stackSize vm - 1) = sint (stackSize vm) - 1" by (rule sint_pred_32 [OF pos])
  have "nat (sint (stackSize vm) - 1) < 256" using assms(1,2) by linarith
  with assms s have "in_bounds (vm\<lparr> stackSize := stackSize vm - 1 \<rparr>) (stackSize vm - 1)"
    by (simp add: in_bounds_def STACK_MAX_SIZE_def)
  with pos s show "pop vm h = Return (stack vm ! nat (sint (stackSize vm) - 1))
                      (vm\<lparr> stackSize := stackSize vm - 1 \<rparr>) h"
    by (simp add: pop_def Let_def)
qed

lemma pop_Exit:
  assumes "sint (stackSize vm) \<le> 0"
  shows "pop vm h = Exit StackUnderflow vm h"
  using assms by (simp add: pop_def word_sless_alt)

lemma push_Return:
  assumes "0 \<le> sint (stackSize vm)" "sint (stackSize vm) < 256" "length (stack vm) = 256"
  shows "push v vm h = Return () (vm\<lparr> stack := (stack vm)[nat (sint (stackSize vm)) := v],
                                       stackSize := stackSize vm + 1 \<rparr>) h"
proof -
  have "nat (sint (stackSize vm)) < 256" using assms(1,2) by linarith
  with assms have "in_bounds vm (stackSize vm)" by (simp add: in_bounds_def STACK_MAX_SIZE_def)
  moreover have "\<not> STACK_MAX_SIZE <s stackSize vm"
    using assms(2) by (simp add: word_sless_alt STACK_MAX_SIZE_def)
  ultimately show ?thesis by (simp add: push_def)
qed

lemma pushPair_steps:
  assumes n: "newObject PAIR_TYPE vm h = Some (Some a, vm1, h1)"
    and d: "a < length h1" "h1 ! a = Some new"
    and sk: "length (stack vm1) = 256" "2 \<le> sint (stackSize vm1)" "sint (stackSize vm1) \<le> 256"
  shows "pushPair vm h =
     Return (Some a)
       (vm1\<lparr> stack := (stack vm1)[nat (sint (stackSize vm1) - 2) := Some a],
              stackSize := stackSize vm1 - 1 \<rparr>)
       (h1[a := Some (new\<lparr> tail := stack vm1 ! nat (sint (stackSize vm1) - 1),
                              head := stack vm1 ! nat (sint (stackSize vm1) - 2) \<rparr>)])"
proof -
  let ?s = "stackSize vm1"
  let ?t = "stack vm1 ! nat (sint ?s - 1)"
  let ?hd = "stack vm1 ! nat (sint ?s - 2)"
  let ?vm2 = "vm1\<lparr> stackSize := ?s - 1 \<rparr>"
  let ?vm3 = "?vm2\<lparr> stackSize := ?s - 1 - 1 \<rparr>"
  let ?h3 = "h1[a := Some (new\<lparr> tail := ?t \<rparr>)]"
  let ?h5 = "?h3[a := Some (new\<lparr> tail := ?t, head := ?hd \<rparr>)]"
  from sk have pos: "0 < sint ?s" by simp
  have p1: "pop vm1 h1 = Return ?t ?vm2 h1" and s1: "sint (?s - 1) = sint ?s - 1"
    using pop_Return [OF pos sk(3) sk(1)] by simp_all
  have st1: "store h1 (Some a) (\<lambda>ob. ob\<lparr> tail := ?t \<rparr>) = Some ?h3"
    using d by (simp add: store_def deref_def)
  have pos2: "0 < sint (stackSize ?vm2)" "sint (stackSize ?vm2) \<le> 256" "length (stack ?vm2) = 256"
    using sk s1 by simp_all
  have p2: "pop ?vm2 ?h3 = Return ?hd ?vm3 ?h3" and s2: "sint (?s - 1 - 1) = sint ?s - 2"
    using pop_Return(1) [OF pos2, of ?h3] pop_Return(2) [OF pos2] s1 by simp_all
  have st2: "store ?h3 (Some a) (\<lambda>ob. ob\<lparr> head := ?hd \<rparr>) = Some ?h5"
    using d by (simp add: store_def deref_def)
  have b3: "0 \<le> sint (stackSize ?vm3)" "sint (stackSize ?vm3) < 256" "length (stack ?vm3) = 256"
    using sk s2 by simp_all
  have pu: "push (Some a) ?vm3 ?h5 =
      Return () (?vm3\<lparr> stack := (stack ?vm3)[nat (sint (stackSize ?vm3)) := Some a],
                        stackSize := stackSize ?vm3 + 1 \<rparr>) ?h5"
    by (rule push_Return [OF b3])
  have "pushPair vm h =
      Return (Some a) (?vm3\<lparr> stack := (stack ?vm3)[nat (sint (stackSize ?vm3)) := Some a],
                        stackSize := stackSize ?vm3 + 1 \<rparr>) ?h5"
    unfolding pushPair_def using n p1 st1 p2 st2 pu by simp
  then show ?thesis using s2 by simp
qed

lemma pushPair_underflow:
  assumes n: "newObject PAIR_TYPE vm h = Some (Some a, vm1, h1)"
    and d: "a < length h1" "h1 ! a = Some new"
    and sk: "length (stack vm1) = 256" "sint (stackSize vm1) < 2"
  shows "pushPair vm h =
     (if sint (stackSize vm1) \<le> 0 then Exit StackUnderflow vm1 h1
      else Exit StackUnderflow (vm1\<lparr> stackSize := stackSize vm1 - 1 \<rparr>)
             (h1[a := Some (new\<lparr> tail := stack vm1 ! nat (sint (stackSize vm1) - 1) \<rparr>)]))"
proof (cases "sint (stackSize vm1) \<le> 0")
  case True
  from pop_Exit [OF True] n True show ?thesis by (simp add: pushPair_def)
next
  case False
  let ?s = "stackSize vm1"
  let ?t = "stack vm1 ! nat (sint ?s - 1)"
  let ?vm2 = "vm1\<lparr> stackSize := ?s - 1 \<rparr>"
  let ?h3 = "h1[a := Some (new\<lparr> tail := ?t \<rparr>)]"
  from False sk have pos: "0 < sint ?s" and le: "sint ?s \<le> 256" by simp_all
  have p1: "pop vm1 h1 = Return ?t ?vm2 h1" and s1: "sint (?s - 1) = sint ?s - 1"
    using pop_Return [OF pos le sk(1)] by simp_all
  have st1: "store h1 (Some a) (\<lambda>ob. ob\<lparr> tail := ?t \<rparr>) = Some ?h3"
    using d by (simp add: store_def deref_def)
  have "sint (stackSize ?vm2) \<le> 0" using s1 sk(2) by simp
  then have p2: "pop ?vm2 ?h3 = Exit StackUnderflow ?vm2 ?h3" by (rule pop_Exit)
  show ?thesis unfolding pushPair_def using n p1 st1 p2 False by simp
qed

lemma vm_ok_precollect:
  assumes ok: "vm_ok vm h as"
  shows "\<exists>vmg hg. (if numObjects vm = maxObjects vm then gc vm h else Some (vm, h)) = Some (vmg, hg) \<and>
           stack vmg = stack vm \<and> stackSize vmg = stackSize vm \<and> numObjects vmg = numObjects vm \<and>
           chain hg (firstObject vmg)
             (if numObjects vm = maxObjects vm then filter (\<lambda>a. a \<in> reachable vm h) as else as) \<and>
           length hg = length h"
proof (cases "numObjects vm = maxObjects vm")
  case True
  from gc_effect [OF ok] obtain vm' h' where g: "gc vm h = Some (vm', h')"
    and v: "vm' = vm\<lparr> firstObject := firstObject vm', maxObjects := numObjects vm * 2 \<rparr>"
    and c: "chain h' (firstObject vm') (filter (\<lambda>a. a \<in> reachable vm h) as)"
    and len: "length h' = length h" by blast
  from v have "stack vm' = stack vm" "stackSize vm' = stackSize vm" "numObjects vm' = numObjects vm"
    by (metis VM.select_convs VM.surjective VM.update_convs)+
  with True g c len show ?thesis by simp
next
  case False
  with ok show ?thesis by (simp add: vm_ok_def)
qed

text \<open>
  C7. In a well-formed state whose stack holds at least two entries, \<open>pushPair\<close> returns
  a new pair (at an address not allocated before): its tail is the top stack entry (the
  first pop), its head the entry below (the second pop); the pair replaces the two
  entries, so the stack is one entry shorter, and \<open>numObjects\<close> is one higher. The pair is
  the new head of the registry chain, in front of the chain as \<open>newObject\<close> left it (the
  old chain, or what a triggered collection kept of it). With fewer than two entries
  \<open>pushPair\<close> ends in the stack-underflow exit.
\<close>

theorem pushPair_builds_pair:
  assumes ok: "vm_ok vm h as"
  shows "(2 \<le> sint (stackSize vm) \<longrightarrow>
           (\<exists>p vm' h' obj. pushPair vm h = Return (Some p) vm' h' \<and>
              deref h (Some p) = None \<and> deref h' (Some p) = Some obj \<and>
              objectType obj = PAIR_TYPE \<and>
              tail obj = stack vm ! nat (sint (stackSize vm) - 1) \<and>
              head obj = stack vm ! nat (sint (stackSize vm) - 2) \<and>
              stack vm' = (stack vm)[nat (sint (stackSize vm) - 2) := Some p] \<and>
              stackSize vm' = stackSize vm - 1 \<and>
              sint (stackSize vm') = sint (stackSize vm) - 1 \<and>
              numObjects vm' = numObjects vm + 1 \<and>
              chain h' (firstObject vm')
                (p # (if numObjects vm = maxObjects vm
                      then filter (\<lambda>a. a \<in> reachable vm h) as else as)))) \<and>
         (sint (stackSize vm) < 2 \<longrightarrow> (\<exists>vm' h'. pushPair vm h = Exit StackUnderflow vm' h'))"
proof -
  let ?as = "if numObjects vm = maxObjects vm then filter (\<lambda>a. a \<in> reachable vm h) as else as"
  from vm_ok_precollect [OF ok] obtain vmg hg where
    pre: "(if numObjects vm = maxObjects vm then gc vm h else Some (vm, h)) = Some (vmg, hg)"
    and vg: "stack vmg = stack vm" "stackSize vmg = stackSize vm" "numObjects vmg = numObjects vm"
    and cg: "chain hg (firstObject vmg) ?as" and len: "length hg = length h" by blast
  let ?a = "length hg"
  let ?new = "\<lparr> objectType = PAIR_TYPE, marked = 0, nextObject = firstObject vmg,
                 intValue = 0, head = None, tail = None \<rparr>"
  let ?h1 = "hg @ [Some ?new]"
  let ?vm1 = "vmg\<lparr> firstObject := Some ?a, numObjects := numObjects vmg + 1 \<rparr>"
  have n: "newObject PAIR_TYPE vm h = Some (Some ?a, ?vm1, ?h1)"
    using pre by (simp add: newObject_def Let_def)
  have d: "?a < length ?h1" "?h1 ! ?a = Some ?new" by simp_all
  from ok have sk: "length (stack ?vm1) = 256" "sint (stackSize ?vm1) \<le> 256"
    using vg by (simp_all add: vm_ok_def stack_ok_def)
  show ?thesis
  proof (intro conjI impI)
    assume two: "2 \<le> sint (stackSize vm)"
    then have two1: "2 \<le> sint (stackSize ?vm1)" using vg by simp
    let ?obj = "?new\<lparr> tail := stack ?vm1 ! nat (sint (stackSize ?vm1) - 1),
                       head := stack ?vm1 ! nat (sint (stackSize ?vm1) - 2) \<rparr>"
    let ?vm' = "?vm1\<lparr> stack := (stack ?vm1)[nat (sint (stackSize ?vm1) - 2) := Some ?a],
                      stackSize := stackSize ?vm1 - 1 \<rparr>"
    let ?h' = "?h1[?a := Some ?obj]"
    have r: "pushPair vm h = Return (Some ?a) ?vm' ?h'"
      by (rule pushPair_steps [OF n d sk(1) two1 sk(2)])
    have fresh: "deref h (Some ?a) = None" using len by (simp add: deref_def)
    have dn: "deref ?h' (Some ?a) = Some ?obj" by (simp add: deref_def)
    have pos: "0 <s stackSize vm" using two by (simp add: word_sless_alt)
    have s1: "sint (stackSize vm - 1) = sint (stackSize vm) - 1" by (rule sint_pred_32 [OF pos])
    have c1: "chain ?h1 (firstObject vmg) ?as" by (rule chain_grow [OF cg])
    have eq: "\<forall>x\<in>set ?as. ?h' ! x = ?h1 ! x"
    proof
      fix x assume "x \<in> set ?as"
      from chain_allocated [OF cg this] have "x < ?a" by blast
      then show "?h' ! x = ?h1 ! x" by (simp add: nth_append)
    qed
    have l': "length ?h' = length ?h1" by simp
    have c': "chain ?h' (firstObject vmg) ?as"
      by (rule chain_same [OF l' eq c1])
    have ch: "chain ?h' (firstObject ?vm') (?a # ?as)"
      unfolding chain.simps using dn c' by simp
    show "\<exists>p vm' h' obj. pushPair vm h = Return (Some p) vm' h' \<and>
              deref h (Some p) = None \<and> deref h' (Some p) = Some obj \<and>
              objectType obj = PAIR_TYPE \<and>
              tail obj = stack vm ! nat (sint (stackSize vm) - 1) \<and>
              head obj = stack vm ! nat (sint (stackSize vm) - 2) \<and>
              stack vm' = (stack vm)[nat (sint (stackSize vm) - 2) := Some p] \<and>
              stackSize vm' = stackSize vm - 1 \<and>
              sint (stackSize vm') = sint (stackSize vm) - 1 \<and>
              numObjects vm' = numObjects vm + 1 \<and>
              chain h' (firstObject vm') (p # ?as)"
    proof (intro exI conjI)
      show "pushPair vm h = Return (Some ?a) ?vm' ?h'" by (rule r)
      show "deref h (Some ?a) = None" by (rule fresh)
      show "deref ?h' (Some ?a) = Some ?obj" by (rule dn)
      show "objectType ?obj = PAIR_TYPE" by simp
      show "tail ?obj = stack vm ! nat (sint (stackSize vm) - 1)" using vg by simp
      show "head ?obj = stack vm ! nat (sint (stackSize vm) - 2)" using vg by simp
      show "stack ?vm' = (stack vm)[nat (sint (stackSize vm) - 2) := Some ?a]" using vg by simp
      show "stackSize ?vm' = stackSize vm - 1" using vg by simp
      show "sint (stackSize ?vm') = sint (stackSize vm) - 1" using vg s1 by simp
      show "numObjects ?vm' = numObjects vm + 1" using vg by simp
      show "chain ?h' (firstObject ?vm') (?a # ?as)" by (rule ch)
    qed
  next
    assume "sint (stackSize vm) < 2"
    then have "sint (stackSize ?vm1) < 2" using vg by simp
    from pushPair_underflow [OF n d sk(1) this]
    show "\<exists>vm' h'. pushPair vm h = Exit StackUnderflow vm' h'"
      by (cases "sint (stackSize ?vm1) \<le> 0") auto
  qed
qed

lemma example_pushPair:
  "pushPair example_vm example_heap =
     Return (Some 5)
       (example_vm\<lparr> stack := Some 5 # Some 1 # replicate 254 None, stackSize := 1,
                     numObjects := 6, firstObject := Some 5 \<rparr>)
       (example_heap @ [Some \<lparr> objectType = PAIR_TYPE, marked = 0, nextObject = Some 4,
                                intValue = 0, head = Some 2, tail = Some 1 \<rparr>])"
  by code_simp

theorem pushPair_builds_pair_witness:
  "vm_ok example_vm example_heap [4, 3, 2, 1, 0] \<and> 2 \<le> sint (stackSize example_vm) \<and>
   (\<exists>p vm' h' obj. pushPair example_vm example_heap = Return (Some p) vm' h' \<and>
      deref example_heap (Some p) = None \<and> deref h' (Some p) = Some obj \<and>
      objectType obj = PAIR_TYPE \<and> tail obj = Some 1 \<and> head obj = Some 2 \<and>
      stack vm' = Some p # Some 1 # replicate 254 None \<and> sint (stackSize vm') = 1 \<and>
      numObjects vm' = 6 \<and> chain h' (firstObject vm') [p, 4, 3, 2, 1, 0]) \<and>
   vm_ok newVM [] [] \<and> sint (stackSize newVM) < 2 \<and>
   (\<exists>vm' h'. pushPair newVM [] = Exit StackUnderflow vm' h')"
proof -
  have two: "2 \<le> sint (stackSize example_vm)" by (simp add: example_vm_def)
  from pushPair_builds_pair [OF example_vm_ok] two obtain p vm' h' obj where
    "pushPair example_vm example_heap = Return (Some p) vm' h'"
    "deref example_heap (Some p) = None" "deref h' (Some p) = Some obj"
    "objectType obj = PAIR_TYPE"
    "tail obj = stack example_vm ! nat (sint (stackSize example_vm) - 1)"
    "head obj = stack example_vm ! nat (sint (stackSize example_vm) - 2)"
    "stack vm' = (stack example_vm)[nat (sint (stackSize example_vm) - 2) := Some p]"
    "sint (stackSize vm') = sint (stackSize example_vm) - 1"
    "numObjects vm' = numObjects example_vm + 1"
    "chain h' (firstObject vm')
       (p # (if numObjects example_vm = maxObjects example_vm
             then filter (\<lambda>a. a \<in> reachable example_vm example_heap) [4, 3, 2, 1, 0]
             else [4, 3, 2, 1, 0]))" by blast
  then have c1: "\<exists>p vm' h' obj. pushPair example_vm example_heap = Return (Some p) vm' h' \<and>
      deref example_heap (Some p) = None \<and> deref h' (Some p) = Some obj \<and>
      objectType obj = PAIR_TYPE \<and> tail obj = Some 1 \<and> head obj = Some 2 \<and>
      stack vm' = Some p # Some 1 # replicate 254 None \<and> sint (stackSize vm') = 1 \<and>
      numObjects vm' = 6 \<and> chain h' (firstObject vm') [p, 4, 3, 2, 1, 0]"
    by (simp add: example_vm_def del: chain.simps)
  have ok0: "vm_ok newVM [] []"
    by (simp add: vm_ok_def stack_ok_def newVM_def closed_set_def live_stack_def)
  have lt: "sint (stackSize newVM) < 2" by (simp add: newVM_def)
  from pushPair_builds_pair [OF ok0] lt
  have c2: "\<exists>vm' h'. pushPair newVM [] = Exit StackUnderflow vm' h'" by blast
  from example_vm_ok two c1 ok0 lt c2 show ?thesis by blast
qed

section \<open>The state on the error paths\<close>

lemma sweep_loop_length:
  "sweep_loop vm h s = Some (vm', h') \<Longrightarrow> length h' = length h"
proof (induction vm h s rule: sweep_loop.induct)
  case (1 vm h object)
  from "1.prems" obtain p where r: "read_slot vm h object = Some p"
    by (auto simp: sweep_loop.simps [of vm h object] split: option.splits)
  show ?case
  proof (cases p)
    case None
    with "1.prems" r show ?thesis by (simp add: sweep_loop.simps [of vm h object])
  next
    case (Some a)
    with "1.prems" r obtain obj where d: "deref h (Some a) = Some obj"
      by (auto simp: sweep_loop.simps [of vm h object] split: option.splits)
    show ?thesis
    proof (cases "marked obj = 0")
      case True
      with "1.prems" r Some d obtain vm1 h1 where
        w: "write_slot vm h object (nextObject obj) = Some (vm1, h1)"
        and sl: "sweep_loop vm1 (free h1 a) object = Some (vm', h')"
        by (auto simp: sweep_loop.simps [of vm h object] split: option.splits)
      from "1.IH"(1) [OF r Some d True w refl sl] write_slot_counts(3) [OF w]
      show ?thesis by (simp add: free_def)
    next
      case False
      with "1.prems" r Some d obtain h1 where
        st: "store h (Some a) (\<lambda>ob. ob\<lparr> marked := 0 \<rparr>) = Some h1"
        and sl: "sweep_loop vm h1 (NextObject_slot a) = Some (vm', h')"
        by (auto simp: sweep_loop.simps [of vm h object] split: option.splits)
      from "1.IH"(2) [OF r Some d False st sl] store_SomeD [OF st] show ?thesis by auto
    qed
  qed
qed

lemma gc_length:
  assumes "gc vm h = Some (vm', h')"
  shows "length h' = length h"
proof -
  from assms obtain h1 vm2 where ma: "markAll vm h = Some h1" and sw: "sweep vm h1 = Some (vm2, h')"
    by (auto simp: gc_def split: option.splits)
  from markAll_loop_marks_only [OF ma [unfolded markAll_def]] have "length h1 = length h"
    by (simp add: marks_only_def)
  with sweep_loop_length [OF sw [unfolded sweep_def]] show ?thesis by simp
qed

lemma newObject_facts:
  assumes n: "newObject t vm h = Some (p, vm', h')"
  shows "p = Some (length h) \<and> length h' = Suc (length h) \<and> stack vm' = stack vm \<and>
         stackSize vm' = stackSize vm \<and> numObjects vm' = numObjects vm + 1 \<and>
         firstObject vm' = p \<and>
         (\<exists>obj. h' ! length h = Some obj \<and> objectType obj = t \<and> marked obj = 0) \<and>
         (numObjects vm \<noteq> maxObjects vm \<longrightarrow> maxObjects vm' = maxObjects vm) \<and>
         (numObjects vm = maxObjects vm \<longrightarrow> maxObjects vm' = numObjects vm * 2)"
proof -
  from newObject_SomeD [OF n] obtain vm1 h1 where
    g: "(if numObjects vm = maxObjects vm then gc vm h else Some (vm, h)) = Some (vm1, h1)"
    and p: "p = Some (length h1)"
    and h': "h' = h1 @ [Some \<lparr> objectType = t, marked = 0, nextObject = firstObject vm1,
                               intValue = 0, head = None, tail = None \<rparr>]"
    and vm': "vm' = vm1\<lparr> firstObject := Some (length h1), numObjects := numObjects vm1 + 1 \<rparr>"
    by blast
  have "length h1 = length h \<and> stack vm1 = stack vm \<and> stackSize vm1 = stackSize vm \<and>
        numObjects vm1 = numObjects vm \<and>
        (numObjects vm \<noteq> maxObjects vm \<longrightarrow> maxObjects vm1 = maxObjects vm) \<and>
        (numObjects vm = maxObjects vm \<longrightarrow> maxObjects vm1 = numObjects vm * 2)"
  proof (cases "numObjects vm = maxObjects vm")
    case True
    with g have gc: "gc vm h = Some (vm1, h1)" by simp
    from gc_vm [OF gc] have "stack vm1 = stack vm" "stackSize vm1 = stackSize vm"
      "numObjects vm1 = numObjects vm" "maxObjects vm1 = numObjects vm * 2"
      by (metis VM.select_convs VM.surjective VM.update_convs)+
    with gc_length [OF gc] True show ?thesis by simp
  next
    case False
    with g show ?thesis by simp
  qed
  with p h' vm' show ?thesis by (simp add: nth_append)
qed

lemma pop_ExitD:
  "pop vm h = Exit e vm' h' \<Longrightarrow>
     e = StackUnderflow \<and> vm' = vm \<and> h' = h \<and> \<not> 0 <s stackSize vm"
  by (auto simp: pop_def Let_def split: if_splits)

lemma push_ExitD:
  "push v vm h = Exit e vm' h' \<Longrightarrow>
     e = StackOverflow \<and> vm' = vm \<and> h' = h \<and> STACK_MAX_SIZE <s stackSize vm"
  by (auto simp: push_def split: if_splits)

lemma pushPair_ExitD:
  assumes x: "pushPair vm h = Exit e vm' h'"
  shows "\<exists>p vm1 h1. newObject PAIR_TYPE vm h = Some (p, vm1, h1) \<and> e = StackUnderflow \<and>
           ((\<not> 0 <s stackSize vm1 \<and> vm' = vm1 \<and> h' = h1) \<or>
            (0 <s stackSize vm1 \<and> vm' = vm1\<lparr> stackSize := stackSize vm1 - 1 \<rparr> \<and>
             store h1 p (\<lambda>ob. ob\<lparr> tail := stack vm1 ! nat (sint (stackSize vm1 - 1)) \<rparr>) = Some h'))"
proof -
  from x obtain p vm1 h1 where n: "newObject PAIR_TYPE vm h = Some (p, vm1, h1)"
    by (auto simp: pushPair_def split: option.splits)
  show ?thesis
  proof (cases "pop vm1 h1")
    case Undefined
    with x n show ?thesis by (simp add: pushPair_def)
  next
    case (Exit e1 vm2 h2)
    with x n have "e = e1" "vm' = vm2" "h' = h2" by (simp_all add: pushPair_def)
    with pop_ExitD [OF Exit] n show ?thesis by blast
  next
    case (Return tl_p vm2 h2)
    from pop_ReturnD [OF Return] have r1: "h2 = h1" "vm2 = vm1\<lparr> stackSize := stackSize vm1 - 1 \<rparr>"
      "tl_p = stack vm1 ! nat (sint (stackSize vm1 - 1))" "0 <s stackSize vm1" by simp_all
    from x n Return obtain h3 where s1: "store h2 p (\<lambda>ob. ob\<lparr> tail := tl_p \<rparr>) = Some h3"
      by (auto simp: pushPair_def split: option.splits)
    show ?thesis
    proof (cases "pop vm2 h3")
      case Undefined
      with x n Return s1 show ?thesis by (simp add: pushPair_def)
    next
      case (Exit e2 vm3 h4)
      with x n Return s1 have "e = e2" "vm' = vm3" "h' = h4" by (simp_all add: pushPair_def)
      with pop_ExitD [OF Exit] n r1 s1 show ?thesis by blast
    next
      case R2: (Return hd_p vm3 h4)
      from pop_ReturnD [OF R2] have ib: "in_bounds vm3 (stackSize vm3)" by blast
      from x n Return s1 R2 obtain h5 where
        pu: "push p vm3 h5 = Exit e vm' h'"
        by (auto simp: pushPair_def split: option.splits outcome.splits)
      from push_ExitD [OF pu] have "STACK_MAX_SIZE <s stackSize vm3" by simp
      with ib have False by (simp add: in_bounds_def word_sless_alt)
      then show ?thesis ..
    qed
  qed
qed

lemma exitedD: "exited r \<Longrightarrow> \<exists>e vm h. r = Exit e vm h"
  by (cases r) simp_all

text \<open>
  C9, as the code has it. \<open>push\<close> and \<open>pop\<close> test the stack size before anything else, so
  the state at their exit is the state at the call. \<open>pushPair\<close> calls \<open>newObject\<close> before
  it pops: when it ends in the stack-underflow exit the stack contents are as before, but
  a pair object has been allocated at a new address and heads the registry chain,
  \<open>numObjects\<close> is one higher, the threshold is twice the old count if that count had
  reached it (a collection has run then) and unchanged otherwise, and the stack size is
  one lower if the stack held an entry (the first pop succeeded) and unchanged otherwise.
\<close>

theorem error_paths_state:
  "(push v vm h = Exit e vm' h' \<longrightarrow> e = StackOverflow \<and> vm' = vm \<and> h' = h) \<and>
   (pop vm h = Exit e vm' h' \<longrightarrow> e = StackUnderflow \<and> vm' = vm \<and> h' = h) \<and>
   (pushPair vm h = Exit e vm' h' \<longrightarrow>
      e = StackUnderflow \<and> stack vm' = stack vm \<and> numObjects vm' = numObjects vm + 1 \<and>
      firstObject vm' = Some (length h) \<and> length h' = Suc (length h) \<and>
      (\<exists>obj. h' ! length h = Some obj \<and> objectType obj = PAIR_TYPE) \<and>
      maxObjects vm' = (if numObjects vm = maxObjects vm then numObjects vm * 2 else maxObjects vm) \<and>
      stackSize vm' = (if 0 <s stackSize vm then stackSize vm - 1 else stackSize vm))"
proof (intro conjI impI)
  assume "push v vm h = Exit e vm' h'"
  from push_ExitD [OF this] show "e = StackOverflow" "vm' = vm" "h' = h" by simp_all
next
  assume "pop vm h = Exit e vm' h'"
  from pop_ExitD [OF this] show "e = StackUnderflow" "vm' = vm" "h' = h" by simp_all
next
  assume "pushPair vm h = Exit e vm' h'"
  from pushPair_ExitD [OF this] obtain p vm1 h1 where
    n: "newObject PAIR_TYPE vm h = Some (p, vm1, h1)" and e: "e = StackUnderflow"
    and c: "(\<not> 0 <s stackSize vm1 \<and> vm' = vm1 \<and> h' = h1) \<or>
            (0 <s stackSize vm1 \<and> vm' = vm1\<lparr> stackSize := stackSize vm1 - 1 \<rparr> \<and>
             store h1 p (\<lambda>ob. ob\<lparr> tail := stack vm1 ! nat (sint (stackSize vm1 - 1)) \<rparr>) = Some h')"
    by blast
  from newObject_facts [OF n] obtain obj where f: "p = Some (length h)"
    "length h1 = Suc (length h)" "stack vm1 = stack vm" "stackSize vm1 = stackSize vm"
    "numObjects vm1 = numObjects vm + 1" "firstObject vm1 = p"
    "h1 ! length h = Some obj" "objectType obj = PAIR_TYPE"
    and m: "numObjects vm \<noteq> maxObjects vm \<longrightarrow> maxObjects vm1 = maxObjects vm"
      "numObjects vm = maxObjects vm \<longrightarrow> maxObjects vm1 = numObjects vm * 2" by blast
  show "e = StackUnderflow" by (rule e)
  from c f show "stack vm' = stack vm" "numObjects vm' = numObjects vm + 1"
    "firstObject vm' = Some (length h)"
    "stackSize vm' = (if 0 <s stackSize vm then stackSize vm - 1 else stackSize vm)" by auto
  from c m show "maxObjects vm' =
      (if numObjects vm = maxObjects vm then numObjects vm * 2 else maxObjects vm)" by auto
  from c f show "length h' = Suc (length h)" by (auto dest: store_SomeD)
  from c show "\<exists>obj. h' ! length h = Some obj \<and> objectType obj = PAIR_TYPE"
  proof
    assume "\<not> 0 <s stackSize vm1 \<and> vm' = vm1 \<and> h' = h1"
    with f show ?thesis by simp
  next
    assume "0 <s stackSize vm1 \<and> vm' = vm1\<lparr> stackSize := stackSize vm1 - 1 \<rparr> \<and>
             store h1 p (\<lambda>ob. ob\<lparr> tail := stack vm1 ! nat (sint (stackSize vm1 - 1)) \<rparr>) = Some h'"
    then have "store h1 p (\<lambda>ob. ob\<lparr> tail := stack vm1 ! nat (sint (stackSize vm1 - 1)) \<rparr>) = Some h'"
      by simp
    from store_SomeD [OF this] f show ?thesis by auto
  qed
qed

theorem error_paths_state_witness:
  "push None overfull_vm [] = Exit StackOverflow overfull_vm [] \<and>
   pop newVM [] = Exit StackUnderflow newVM [] \<and>
   (\<exists>vm' h'. pushPair newVM [] = Exit StackUnderflow vm' h' \<and> stack vm' = stack newVM \<and>
      numObjects vm' = numObjects newVM + 1 \<and> firstObject vm' = Some 0 \<and> length h' = 1 \<and>
      maxObjects vm' = maxObjects newVM \<and> stackSize vm' = stackSize newVM)"
proof -
  have "exited (push None overfull_vm [])" by code_simp
  from exitedD [OF this] error_paths_state [of None overfull_vm "[]"]
  have c1: "push None overfull_vm [] = Exit StackOverflow overfull_vm []" by auto
  have "exited (pop newVM [])" by code_simp
  from exitedD [OF this] error_paths_state [of _ newVM "[]"]
  have c2: "pop newVM [] = Exit StackUnderflow newVM []" by auto
  have "exited (pushPair newVM [])" by code_simp
  from exitedD [OF this] obtain e vm' h' where x: "pushPair newVM [] = Exit e vm' h'" by blast
  have nv: "numObjects newVM \<noteq> maxObjects newVM" "\<not> 0 <s stackSize newVM"
    by (simp_all add: newVM_def INITIAL_GC_THRESHOLD_def)
  from x nv error_paths_state [of _ newVM "[]" e vm' h']
  have c3: "\<exists>vm' h'. pushPair newVM [] = Exit StackUnderflow vm' h' \<and> stack vm' = stack newVM \<and>
      numObjects vm' = numObjects newVM + 1 \<and> firstObject vm' = Some 0 \<and> length h' = 1 \<and>
      maxObjects vm' = maxObjects newVM \<and> stackSize vm' = stackSize newVM"
    by auto
  from c1 c2 c3 show ?thesis by blast
qed

text \<open>
  C9 as stated fails for \<open>pushPair\<close>: on the empty stack of a new VM it exits with the
  object count at 1 and a pair object at the head of the registry chain.
\<close>

theorem pushPair_underflow_changes_state:
  "pushPair newVM [] =
     Exit StackUnderflow (newVM\<lparr> numObjects := 1, firstObject := Some 0 \<rparr>)
       [Some \<lparr> objectType = PAIR_TYPE, marked = 0, nextObject = None, intValue = 0,
               head = None, tail = None \<rparr>] \<and>
   numObjects (newVM\<lparr> numObjects := 1, firstObject := Some 0 \<rparr>) \<noteq> numObjects newVM \<and>
   firstObject (newVM\<lparr> numObjects := 1, firstObject := Some 0 \<rparr>) \<noteq> firstObject newVM"
  by code_simp

section \<open>Well-formedness is an invariant of the interface\<close>

lemma vm_ok_newVM: "vm_ok newVM [] []"
  by (simp add: vm_ok_def stack_ok_def newVM_def closed_set_def live_stack_def)

lemma gc_vm_ok:
  assumes ok: "vm_ok vm h as" and g: "gc vm h = Some (vm', h')"
  shows "vm_ok vm' h' (filter (\<lambda>a. a \<in> reachable vm h) as)"
proof -
  let ?L = "filter (\<lambda>a. a \<in> reachable vm h) as"
  from gc_effect [OF ok] g have
    v: "vm' = vm\<lparr> firstObject := firstObject vm', maxObjects := numObjects vm * 2 \<rparr>"
    and c: "chain h' (firstObject vm') ?L" and len: "length h' = length h"
    and cells: "\<forall>a\<in>set as. if a \<in> reachable vm h
                  then (\<exists>obj n. h ! a = Some obj \<and> h' ! a = Some (obj\<lparr> nextObject := n \<rparr>))
                  else h' ! a = None" by auto
  from v have st: "stack vm' = stack vm" "stackSize vm' = stackSize vm"
    by (metis VM.select_convs VM.surjective VM.update_convs)+
  from ok have sk: "stack_ok vm" and cs: "closed_set h (set as)"
    and rs: "set (live_stack vm) \<subseteq> Some ` set as"
    and un: "\<forall>a\<in>set as. \<not> is_marked h (Some a)"
    and ch: "chain h (firstObject vm) as" by (simp_all add: vm_ok_def)
  have cell: "\<exists>obj n. a < length h \<and> h ! a = Some obj \<and> h' ! a = Some (obj\<lparr> nextObject := n \<rparr>)"
    if "a \<in> set ?L" for a
  proof -
    from that have a: "a \<in> set as" "a \<in> reachable vm h" by simp_all
    from cells a(1) have "if a \<in> reachable vm h
                  then (\<exists>obj n. h ! a = Some obj \<and> h' ! a = Some (obj\<lparr> nextObject := n \<rparr>))
                  else h' ! a = None" by blast
    with a(2) chain_allocated [OF ch a(1)] show ?thesis by auto
  qed
  have "stack_ok vm'" using sk st by (simp add: stack_ok_def)
  moreover have "closed_set h' (set ?L)"
    unfolding closed_set_def
  proof
    fix a assume aL: "a \<in> set ?L"
    then have a: "a \<in> set as" "a \<in> reachable vm h" by simp_all
    from cell [OF aL] obtain obj n where o: "a < length h" "h ! a = Some obj"
      "h' ! a = Some (obj\<lparr> nextObject := n \<rparr>)" by blast
    then have d: "deref h (Some a) = Some obj" by (simp add: deref_def)
    from cs a(1) d have cl: "objectType obj = PAIR_TYPE \<longrightarrow>
        head obj \<in> Some ` set as \<and> tail obj \<in> Some ` set as" by (auto simp: closed_set_def)
    have "objectType obj = PAIR_TYPE \<longrightarrow> head obj \<in> Some ` set ?L \<and> tail obj \<in> Some ` set ?L"
    proof
      assume pt: "objectType obj = PAIR_TYPE"
      with cl obtain b c where bc: "head obj = Some b" "b \<in> set as" "tail obj = Some c" "c \<in> set as"
        by auto
      from a(2) d pt bc(1) have "b \<in> reachable vm h"
        unfolding reachable_def by (rule reach.via_head)
      moreover from a(2) d pt bc(3) have "c \<in> reachable vm h"
        unfolding reachable_def by (rule reach.via_tail)
      ultimately show "head obj \<in> Some ` set ?L \<and> tail obj \<in> Some ` set ?L" using bc by simp
    qed
    with o len show "case deref h' (Some a) of None \<Rightarrow> False
        | Some obj \<Rightarrow> objectType obj = PAIR_TYPE \<longrightarrow> head obj \<in> Some ` set ?L \<and> tail obj \<in> Some ` set ?L"
      by (simp add: deref_def)
  qed
  moreover have "set (live_stack vm') \<subseteq> Some ` set ?L"
  proof
    fix p assume "p \<in> set (live_stack vm')"
    then have p: "p \<in> set (live_stack vm)" using st by (simp add: live_stack_def)
    with rs obtain a where a: "p = Some a" "a \<in> set as" by auto
    with p have "a \<in> roots vm" by (simp add: roots_def addrs_of_def)
    then have "a \<in> reachable vm h" unfolding reachable_def by (rule reach.root)
    with a show "p \<in> Some ` set ?L" by simp
  qed
  moreover have "\<forall>a\<in>set ?L. \<not> is_marked h' (Some a)"
  proof
    fix a assume aL: "a \<in> set ?L"
    from cell [OF aL] obtain obj n where o: "a < length h" "h ! a = Some obj"
      "h' ! a = Some (obj\<lparr> nextObject := n \<rparr>)" by blast
    from un aL have "\<not> is_marked h (Some a)" by simp
    with o have "marked obj = 0" by (simp add: is_marked_def deref_def)
    with o len show "\<not> is_marked h' (Some a)" by (simp add: is_marked_def deref_def)
  qed
  ultimately show ?thesis using c unfolding vm_ok_def by blast
qed

lemma pop_vm_ok:
  assumes ok: "vm_ok vm h as" and p: "pop vm h = Return q vm' h'"
  shows "vm_ok vm' h' as"
proof -
  from pop_ReturnD [OF p] have h': "h' = h" and vm': "vm' = vm\<lparr> stackSize := stackSize vm - 1 \<rparr>"
    and pos: "0 <s stackSize vm" by simp_all
  have s: "sint (stackSize vm - 1) = sint (stackSize vm) - 1" by (rule sint_pred_32 [OF pos])
  from pos have "0 < sint (stackSize vm)" by (simp add: word_sless_alt)
  with ok s vm' have "stack_ok vm'" by (simp add: vm_ok_def stack_ok_def)
  moreover have "set (live_stack vm') \<subseteq> set (live_stack vm)"
    using vm' s by (simp add: live_stack_def set_take_subset_set_take)
  ultimately show ?thesis using ok h' vm' unfolding vm_ok_def by auto
qed

lemma vm_ok_precollected:
  assumes ok: "vm_ok vm h as"
    and g: "(if numObjects vm = maxObjects vm then gc vm h else Some (vm, h)) = Some (vmg, hg)"
  shows "\<exists>asg. vm_ok vmg hg asg"
proof (cases "numObjects vm = maxObjects vm")
  case True
  with g have "gc vm h = Some (vmg, hg)" by simp
  from gc_vm_ok [OF ok this] show ?thesis by blast
next
  case False
  with g ok show ?thesis by auto
qed

text \<open>
  A well-formed state stays well-formed when a new unmarked object, linked to the old
  head of the chain and pointing to registered objects only, becomes the head of the
  chain, provided the entries of the new stack are registered.
\<close>

lemma vm_ok_extend:
  assumes ok: "vm_ok vmg hg asg"
    and obj: "marked obj = 0" "nextObject obj = firstObject vmg"
      "objectType obj = PAIR_TYPE \<longrightarrow> head obj \<in> Some ` set asg \<and> tail obj \<in> Some ` set asg"
    and vm': "stack_ok vm'" "firstObject vm' = Some (length hg)"
      "set (live_stack vm') \<subseteq> Some ` set (length hg # asg)"
  shows "vm_ok vm' (hg @ [Some obj]) (length hg # asg)"
proof -
  let ?a = "length hg" and ?h = "hg @ [Some obj]"
  from ok have cs: "closed_set hg (set asg)" and ch: "chain hg (firstObject vmg) asg"
    and un: "\<forall>a\<in>set asg. \<not> is_marked hg (Some a)" by (simp_all add: vm_ok_def)
  have lt: "x < ?a" if "x \<in> set asg" for x using chain_allocated [OF ch that] by blast
  have same: "deref ?h (Some x) = deref hg (Some x)" if "x \<in> set asg" for x
    using lt [OF that] by (simp add: deref_def nth_append)
  have da: "deref ?h (Some ?a) = Some obj" by (simp add: deref_def)
  have "chain ?h (firstObject vm') (?a # asg)"
    using chain_grow [OF ch, of "[Some obj]"] da obj(2) vm'(2) by simp
  moreover have "closed_set ?h (set (?a # asg))"
    unfolding closed_set_def
  proof
    fix x assume "x \<in> set (?a # asg)"
    then have "x = ?a \<or> x \<in> set asg" by simp
    then show "case deref ?h (Some x) of None \<Rightarrow> False
        | Some ob \<Rightarrow> objectType ob = PAIR_TYPE \<longrightarrow>
            head ob \<in> Some ` set (?a # asg) \<and> tail ob \<in> Some ` set (?a # asg)"
    proof
      assume "x = ?a"
      with da obj(3) show ?thesis by auto
    next
      assume x: "x \<in> set asg"
      with cs have "case deref hg (Some x) of None \<Rightarrow> False
        | Some ob \<Rightarrow> objectType ob = PAIR_TYPE \<longrightarrow> head ob \<in> Some ` set asg \<and> tail ob \<in> Some ` set asg"
        by (simp add: closed_set_def)
      then show ?thesis unfolding same [OF x] by (auto split: option.splits)
    qed
  qed
  moreover have "\<forall>x\<in>set (?a # asg). \<not> is_marked ?h (Some x)"
  proof
    fix x assume "x \<in> set (?a # asg)"
    then have "x = ?a \<or> x \<in> set asg" by simp
    then show "\<not> is_marked ?h (Some x)"
    proof
      assume "x = ?a"
      with da obj(1) show ?thesis by (simp add: is_marked_def)
    next
      assume x: "x \<in> set asg"
      with un have "\<not> is_marked hg (Some x)" by blast
      then show ?thesis using same [OF x] by (simp add: is_marked_def)
    qed
  qed
  ultimately show ?thesis using vm'(1,3) unfolding vm_ok_def by blast
qed


lemma push_Return_bounds: "push v vm h = Return u vm' h' \<Longrightarrow> in_bounds vm (stackSize vm)"
  by (auto simp: push_def split: if_splits)

lemma take_Suc_update:
  "n < length xs \<Longrightarrow> take (Suc n) (xs[n := v]) = take n xs @ [v]"
  by (simp add: take_Suc_conv_app_nth)

lemma live_stack_nth:
  assumes "stack_ok vm" "0 \<le> k" "k < sint (stackSize vm)"
  shows "stack vm ! nat k \<in> set (live_stack vm)"
proof -
  from assms have "nat k < nat (sint (stackSize vm))" "nat (sint (stackSize vm)) \<le> length (stack vm)"
    unfolding stack_ok_def by linarith+
  then have "nat k < length (live_stack vm)" "live_stack vm ! nat k = stack vm ! nat k"
    by (simp_all add: live_stack_def)
  then show ?thesis by (metis nth_mem)
qed

lemma pushInt_vm_ok:
  assumes ok: "vm_ok vm h as" and r: "pushInt v vm h = Return u vm' h'"
  shows "\<exists>as'. vm_ok vm' h' as'"
proof -
  from r obtain object vm1 h1 h2 where n: "newObject INT_TYPE vm h = Some (object, vm1, h1)"
    and st: "store h1 object (\<lambda>ob. ob\<lparr> intValue := v \<rparr>) = Some h2"
    and pu: "push object vm1 h2 = Return u vm' h'"
    by (auto simp: pushInt_def split: option.splits)
  from newObject_SomeD [OF n] obtain vmg hg where
    g: "(if numObjects vm = maxObjects vm then gc vm h else Some (vm, h)) = Some (vmg, hg)"
    and ob: "object = Some (length hg)"
    and h1: "h1 = hg @ [Some \<lparr> objectType = INT_TYPE, marked = 0, nextObject = firstObject vmg,
                               intValue = 0, head = None, tail = None \<rparr>]"
    and vm1: "vm1 = vmg\<lparr> firstObject := Some (length hg), numObjects := numObjects vmg + 1 \<rparr>"
    by blast
  from vm_ok_precollected [OF ok g] obtain asg where okg: "vm_ok vmg hg asg" by blast
  let ?obj = "\<lparr> objectType = INT_TYPE, marked = 0, nextObject = firstObject vmg,
                 intValue = v, head = None, tail = None \<rparr>"
  from st ob h1 have h2: "h2 = hg @ [Some ?obj]" by (simp add: store_def deref_def)
  from push_ReturnD [OF pu] have h': "h' = h2"
    and vm': "vm' = vm1\<lparr> stack := (stack vm1)[nat (sint (stackSize vm1)) := object],
                           stackSize := stackSize vm1 + 1 \<rparr>" by simp_all
  from push_Return_bounds [OF pu] have ib: "in_bounds vm1 (stackSize vm1)" .
  let ?s = "stackSize vmg"
  from ib vm1 have b: "0 \<le> sint ?s" "sint ?s < 256" "nat (sint ?s) < length (stack vmg)"
    by (simp_all add: in_bounds_def STACK_MAX_SIZE_def)
  then have "?s <s 256" by (simp add: word_sless_alt)
  then have s1: "sint (?s + 1) = sint ?s + 1" by (rule sint_succ_32)
  from okg have skg: "stack_ok vmg" and rs: "set (live_stack vmg) \<subseteq> Some ` set asg"
    by (simp_all add: vm_ok_def)
  have sk': "stack_ok vm'" using skg vm' vm1 s1 b by (simp add: stack_ok_def)
  have "nat (sint ?s + 1) = Suc (nat (sint ?s))" using b(1) by simp
  then have "live_stack vm' = live_stack vmg @ [object]"
    using vm' vm1 s1 b(3) by (simp add: live_stack_def take_Suc_update)
  with rs ob have ls: "set (live_stack vm') \<subseteq> Some ` set (length hg # asg)" by auto
  have fo: "firstObject vm' = Some (length hg)" using vm' vm1 by simp
  have "vm_ok vm' (hg @ [Some ?obj]) (length hg # asg)"
    by (rule vm_ok_extend [OF okg _ _ _ sk' fo ls]) simp_all
  with h' h2 show ?thesis by blast
qed

lemma pushPair_vm_ok:
  assumes ok: "vm_ok vm h as" and r: "pushPair vm h = Return q vm' h'"
  shows "\<exists>as'. vm_ok vm' h' as'"
proof -
  from r obtain object vm1 h1 where n: "newObject PAIR_TYPE vm h = Some (object, vm1, h1)"
    by (auto simp: pushPair_def split: option.splits)
  from newObject_SomeD [OF n] obtain vmg hg where
    g: "(if numObjects vm = maxObjects vm then gc vm h else Some (vm, h)) = Some (vmg, hg)"
    and ob: "object = Some (length hg)"
    and h1: "h1 = hg @ [Some \<lparr> objectType = PAIR_TYPE, marked = 0, nextObject = firstObject vmg,
                               intValue = 0, head = None, tail = None \<rparr>]"
    and vm1: "vm1 = vmg\<lparr> firstObject := Some (length hg), numObjects := numObjects vmg + 1 \<rparr>"
    by blast
  let ?new = "\<lparr> objectType = PAIR_TYPE, marked = 0, nextObject = firstObject vmg,
                 intValue = 0, head = None, tail = None \<rparr>"
  from vm_ok_precollected [OF ok g] obtain asg where okg: "vm_ok vmg hg asg" by blast
  from okg have skg: "stack_ok vmg" and rs: "set (live_stack vmg) \<subseteq> Some ` set asg"
    by (simp_all add: vm_ok_def)
  let ?s = "stackSize vmg"
  from n ob have n': "newObject PAIR_TYPE vm h = Some (Some (length hg), vm1, h1)" by simp
  have d: "length hg < length h1" "h1 ! length hg = Some ?new" using h1 by simp_all
  from skg vm1 have sk1: "length (stack vm1) = 256" "sint (stackSize vm1) \<le> 256"
    by (simp_all add: stack_ok_def)
  have two: "2 \<le> sint ?s"
  proof (rule ccontr)
    assume "\<not> 2 \<le> sint ?s"
    then have "sint (stackSize vm1) < 2" using vm1 by simp
    from pushPair_underflow [OF n' d sk1(1) this] r show False by (simp split: if_splits)
  qed
  then have two1: "2 \<le> sint (stackSize vm1)" using vm1 by simp
  let ?tl = "stack vmg ! nat (sint ?s - 1)" and ?hd = "stack vmg ! nat (sint ?s - 2)"
  let ?obj = "\<lparr> objectType = PAIR_TYPE, marked = 0, nextObject = firstObject vmg,
                 intValue = 0, head = ?hd, tail = ?tl \<rparr>"
  from pushPair_steps [OF n' d sk1(1) two1 sk1(2)] r vm1 h1
  have vm': "vm' = vm1\<lparr> stack := (stack vmg)[nat (sint ?s - 2) := Some (length hg)],
                         stackSize := ?s - 1 \<rparr>"
    and h': "h' = hg @ [Some ?obj]" by simp_all
  have pos: "0 <s ?s" using two by (simp add: word_sless_alt)
  have s1: "sint (?s - 1) = sint ?s - 1" by (rule sint_pred_32 [OF pos])
  have sk': "stack_ok vm'" using skg vm' vm1 s1 two by (simp add: stack_ok_def)
  have lt: "nat (sint ?s - 2) < length (stack vmg)" using skg two unfolding stack_ok_def by linarith
  have "nat (sint ?s - 1) = Suc (nat (sint ?s - 2))" using two by linarith
  then have "live_stack vm' = take (nat (sint ?s - 2)) (stack vmg) @ [Some (length hg)]"
    using vm' vm1 s1 lt by (simp add: live_stack_def take_Suc_update)
  moreover have "set (take (nat (sint ?s - 2)) (stack vmg)) \<subseteq> set (live_stack vmg)"
    unfolding live_stack_def by (rule set_take_subset_set_take) linarith
  ultimately have ls: "set (live_stack vm') \<subseteq> Some ` set (length hg # asg)" using rs by auto
  have fo: "firstObject vm' = Some (length hg)" using vm' vm1 by simp
  have "?hd \<in> set (live_stack vmg)" by (rule live_stack_nth [OF skg]) (use two in simp_all)
  moreover have "?tl \<in> set (live_stack vmg)" by (rule live_stack_nth [OF skg]) (use two in simp_all)
  ultimately have ht: "?hd \<in> Some ` set asg" "?tl \<in> Some ` set asg" using rs by blast+
  have "vm_ok vm' (hg @ [Some ?obj]) (length hg # asg)"
    by (rule vm_ok_extend [OF okg _ _ _ sk' fo ls]) (simp_all add: ht)
  with h' show ?thesis by blast
qed

section \<open>The object count is never decremented\<close>

text \<open>
  \<^verbatim>\<open>sweep\<close> unlinks and frees an unmarked object but has no \<^verbatim>\<open>vm->numObjects--\<close>: no
  function of the program ever lowers \<open>numObjects\<close>. The comment of the field (the number
  of currently allocated objects) and the comment in \<^verbatim>\<open>gc\<close> (twice the new number of
  objects) say it should.
\<close>

lemma sweep_numObjects: "sweep vm h = Some (vm', h') \<Longrightarrow> numObjects vm' = numObjects vm"
  using sweep_loop_vm [of vm h FirstObject_slot vm' h']
  by (metis VM.select_convs(3) VM.surjective VM.update_convs(5) sweep_def)

lemma gc_numObjects: "gc vm h = Some (vm', h') \<Longrightarrow> numObjects vm' = numObjects vm"
  using gc_vm [of vm h vm' h']
  by (metis VM.select_convs(3) VM.surjective VM.update_convs(4) VM.update_convs(5))

text \<open>
  C2 (the code departs from it). After \<open>pushInt 1\<close>, \<open>pushInt 2\<close>, \<open>pop\<close> the object \<open>1\<close> is
  unreachable. The collection unlinks it from the chain and frees it, and the chain is
  the single object \<open>0\<close>; the object count is still 2.
\<close>

theorem unreachable_object_still_counted:
  "counters two_ints_one_popped = Some (1, 2, 16) \<and>
   memory two_ints_one_popped = Some (Some 1, [Some (int_obj 1 None), Some (int_obj 2 (Some 0))]) \<and>
   counters (then_do two_ints_one_popped collect) = Some (1, 2, 4) \<and>
   memory (then_do two_ints_one_popped collect) = Some (Some 0, [Some (int_obj 1 None), None])"
  by code_simp

text \<open>
  C3 (the code departs from it). The stack holds a pair of two integers; a third integer
  has been pushed and popped. After marking, the sweep keeps the three marked objects and
  clears their mark bits, and it unlinks and frees the unmarked one; \<open>numObjects\<close> is 4
  before and after, while the chain that remains has 3 objects.
\<close>

theorem sweep_does_not_decrement:
  "counters pair_and_garbage = Some (1, 4, 16) \<and>
   memory pair_and_garbage =
     Some (Some 3, [Some (int_obj 1 None), Some (int_obj 2 (Some 0)),
                    Some (pair_obj (Some 0) (Some 1) (Some 1)), Some (int_obj 3 (Some 2))]) \<and>
   counters (then_do pair_and_garbage mark_then_sweep) = Some (1, 4, 16) \<and>
   memory (then_do pair_and_garbage mark_then_sweep) =
     Some (Some 2, [Some (int_obj 1 None), Some (int_obj 2 (Some 0)),
                    Some (pair_obj (Some 0) (Some 1) (Some 1)), None])"
  by code_simp

text \<open>
  C4 (the code departs from it). After \<open>pushInt 5\<close> and \<open>pop\<close> a collection leaves no live
  object: the chain is empty and the only cell is freed. The threshold becomes 2, twice
  the count that was not decremented, where the claim has \<open>2 * 0\<close>.
\<close>

theorem threshold_twice_stale_count:
  "counters (then_do one_int_popped collect) = Some (0, 1, 2) \<and>
   memory (then_do one_int_popped collect) = Some (None, [None])"
  by code_simp

text \<open>
  C5 (the code departs from it). The scenario of \<^verbatim>\<open>main\<close>. The intermediate states are as
  the claim has them. The forced collection frees all five objects and leaves the chain
  empty, but the object count stays 5 and the threshold becomes 10, where the claim has
  0 and 0.
\<close>

theorem main_scenario:
  "counters main_ints = Some (3, 3, 16) \<and>
   counters (then_do main_ints pushPair) = Some (2, 4, 16) \<and>
   counters main_pairs = Some (1, 5, 16) \<and>
   counters (then_do main_pairs pop) = Some (0, 5, 16) \<and>
   counters (then_do (then_do main_pairs pop) collect) = Some (0, 5, 10) \<and>
   memory (then_do (then_do main_pairs pop) collect) = Some (None, [None, None, None, None, None])"
  by code_simp

section \<open>The overflow check of push\<close>

lemma push_at_capacity:
  assumes "stackSize vm = STACK_MAX_SIZE"
  shows "push v vm h = Undefined"
  using assms by (simp add: push_def in_bounds_def word_sless_alt)

lemma pushInt_at_capacity:
  assumes "stackSize vm = STACK_MAX_SIZE"
  shows "pushInt v vm h = Undefined"
proof (cases "newObject INT_TYPE vm h")
  case None
  then show ?thesis by (simp add: pushInt_def)
next
  case (Some r)
  then obtain object vm1 h1 where n: "newObject INT_TYPE vm h = Some (object, vm1, h1)"
    by (cases r) auto
  from newObject_facts [OF n] assms have "stackSize vm1 = STACK_MAX_SIZE" by simp
  then have "push object vm1 h2 = Undefined" for h2 by (rule push_at_capacity)
  with n show ?thesis by (simp add: pushInt_def split: option.splits)
qed

text \<open>
  C6 (the code departs from it). The check is \<^verbatim>\<open>stackSize > STACK_MAX_SIZE\<close>. With 256
  entries on the stack it does not fire, and the assignment writes \<^verbatim>\<open>stack[256]\<close>, one past
  the end of the array; the exit is taken only from 257 on.
\<close>

theorem push_at_capacity_writes_out_of_bounds:
  "sint (stackSize full_vm) = sint STACK_MAX_SIZE \<and> length (stack full_vm) = 256 \<and>
   push (Some 255) full_vm full_heap = Undefined \<and>
   pushInt 8 full_vm full_heap = Undefined"
proof -
  have s: "stackSize full_vm = STACK_MAX_SIZE" by (simp add: full_vm_def STACK_MAX_SIZE_def)
  have "length (stack full_vm) = 256" by (simp add: full_vm_def)
  with s push_at_capacity [OF s] pushInt_at_capacity [OF s] show ?thesis by simp
qed

end
